theory Spec2Isabelle
  imports Main "HOL-Library.Word" "HOL-Library.Multiset"
begin

section \<open>JavaScript strings\<close>

text \<open>
  A JavaScript string is a sequence of UTF-16 code units. Paths, names and node ids are
  such strings. \<open>ascii\<close> writes a string literal of the source as code units.
\<close>

type_synonym jsstring = "16 word list"

definition ascii :: "string \<Rightarrow> jsstring" where
  "ascii s = map (\<lambda>c. of_nat (of_char c)) s"

datatype error = URIError | RangeError

section \<open>Node identity: \<open>generateNodeId\<close>\<close>

text \<open>
  \<^verbatim>\<open>const generateNodeId = (path) => btoa(encodeURIComponent(path)).replace(/[+/=]/g, '')\<close>

  \<open>encodeURIComponent\<close> (ECMA-262, Encode with the unreserved set of URI components)
  keeps letters, digits and \<open>- _ . ! ~ * ' ( )\<close>, and writes every other code point as
  the \<open>%XX\<close> escapes of its UTF-8 octets. A lone surrogate throws URIError. Its result
  is ASCII, so it is a \<open>string\<close> here.
\<close>

definition uriUnreserved :: "nat \<Rightarrow> bool" where
  "uriUnreserved c \<longleftrightarrow>
     (65 \<le> c \<and> c \<le> 90) \<or> (97 \<le> c \<and> c \<le> 122) \<or> (48 \<le> c \<and> c \<le> 57) \<or>
     c \<in> {45, 95, 46, 33, 126, 42, 39, 40, 41}"

definition hexDigit :: "nat \<Rightarrow> char" where
  "hexDigit d = ''0123456789ABCDEF'' ! d"

definition percent :: "nat \<Rightarrow> string" where
  "percent b = [CHR ''%'', hexDigit (b div 16), hexDigit (b mod 16)]"

definition utf8 :: "nat \<Rightarrow> nat list" where
  "utf8 v =
     (if v < 0x80 then [v]
      else if v < 0x800 then [0xC0 + v div 64, 0x80 + v mod 64]
      else if v < 0x10000 then [0xE0 + v div 4096, 0x80 + v div 64 mod 64, 0x80 + v mod 64]
      else [0xF0 + v div 262144, 0x80 + v div 4096 mod 64, 0x80 + v div 64 mod 64,
            0x80 + v mod 64])"

definition escape :: "nat \<Rightarrow> string" where
  "escape v = concat (map percent (utf8 v))"

fun encodeUnits :: "nat list \<Rightarrow> error + string" where
  "encodeUnits [] = Inr []"
| "encodeUnits (c # cs) =
     (if uriUnreserved c then
        (case encodeUnits cs of Inl e \<Rightarrow> Inl e | Inr r \<Rightarrow> Inr (char_of c # r))
      else if 0xDC00 \<le> c \<and> c \<le> 0xDFFF then Inl URIError
      else if c < 0xD800 \<or> 0xDBFF < c then
        (case encodeUnits cs of Inl e \<Rightarrow> Inl e | Inr r \<Rightarrow> Inr (escape c @ r))
      else
        (case cs of
           [] \<Rightarrow> Inl URIError
         | d # ds \<Rightarrow>
             if d < 0xDC00 \<or> 0xDFFF < d then Inl URIError
             else (case encodeUnits ds of
                     Inl e \<Rightarrow> Inl e
                   | Inr r \<Rightarrow>
                       Inr (escape ((c - 0xD800) * 0x400 + (d - 0xDC00) + 0x10000) @ r))))"

definition encodeURIComponent :: "jsstring \<Rightarrow> error + string" where
  "encodeURIComponent s = encodeUnits (map unat s)"

text \<open>
  \<open>btoa\<close>: standard base64 with padding, three octets to four characters.
\<close>

definition b64 :: "nat \<Rightarrow> char" where
  "b64 n = ''ABCDEFGHIJKLMNOPQRSTUVWXYZabcdefghijklmnopqrstuvwxyz0123456789+/'' ! n"

fun btoa :: "string \<Rightarrow> string" where
  "btoa [] = []"
| "btoa [a] =
     (let x = of_char a :: nat
      in [b64 (x div 4), b64 (x mod 4 * 16), CHR ''='', CHR ''=''])"
| "btoa [a, b] =
     (let x = of_char a :: nat; y = of_char b :: nat
      in [b64 (x div 4), b64 (x mod 4 * 16 + y div 16), b64 (y mod 16 * 4), CHR ''=''])"
| "btoa (a # b # c # rest) =
     (let x = of_char a :: nat; y = of_char b :: nat; z = of_char c :: nat
      in [b64 (x div 4), b64 (x mod 4 * 16 + y div 16), b64 (y mod 16 * 4 + z div 64),
          b64 (z mod 64)] @ btoa rest)"

definition stripped :: "string \<Rightarrow> string" where
  \<comment> \<open>\<^verbatim>\<open>.replace(/[+/=]/g, '')\<close>\<close>
  "stripped s = filter (\<lambda>c. c \<notin> {CHR ''+'', CHR ''/'', CHR ''=''}) s"

definition generateNodeId :: "jsstring \<Rightarrow> error + jsstring" where
  "generateNodeId path =
     (case encodeURIComponent path of
        Inl e \<Rightarrow> Inl e
      | Inr enc \<Rightarrow> Inr (ascii (stripped (btoa enc))))"


section \<open>Data model (\<^verbatim>\<open>shared/types\<close>)\<close>

datatype NodeType = File | Directory

text \<open>
  \<^verbatim>\<open>interface FileTreeNode\<close>: \<open>id, name, path, type, depth\<close> are required, the other
  fields optional (\<open>None\<close> is an absent field). \<open>children\<close> holds node objects, not ids.
\<close>

datatype FileTreeNode = FileTreeNode
  (id': jsstring)
  (name: jsstring)
  (path: jsstring)
  (type': NodeType)
  (size': "int option")
  (lastModified: "int option")
  (children: "FileTreeNode list option")
  (isExpanded: "bool option")
  (isLoading: "bool option")
  (parent: "jsstring option")
  (depth: int)

datatype SortBy = ByName | ByType | BySize | ByModified

datatype SortOrder = Asc | Desc

record FileTreeConfig =
  showHiddenFiles :: bool
  sortBy :: SortBy
  sortOrder :: SortOrder
  maxDepth :: int
  autoExpand :: bool
  enableVirtualization :: bool

text \<open>
  \<^verbatim>\<open>interface FileTreeState\<close> and \<^verbatim>\<open>interface FileTreeStore extends FileTreeState\<close>.
  The table \<open>nodes\<close> is a \<^verbatim>\<open>Record<string, FileTreeNode>\<close>, a plain object; the map
  holds its entries (its own properties). The table's prototype is \<^verbatim>\<open>Object.prototype\<close>:
  \<^verbatim>\<open>{}\<close> and every spread build such an object. (The assignment
  \<^verbatim>\<open>nodesMap[node.id] = node\<close> of \<open>setNodes\<close> sets the prototype instead of an entry when
  the id is \<^verbatim>\<open>__proto__\<close>, which no id that \<open>generateNodeId\<close> makes is; the model leaves
  that case out.) A lookup \<^verbatim>\<open>nodes[id]\<close> of an id without an entry goes on to the
  prototype. The operations that read a field of what they find (\<open>children\<close>, \<open>depth\<close>,
  \<open>path\<close>) or spread it get from a member of \<^verbatim>\<open>Object.prototype\<close> what they get from
  \<open>undefined\<close>, and are modelled on the entries alone; \<open>getSelectedNodes\<close> returns what the
  lookup finds and is modelled with the prototype. The state is polymorphic in the
  objects the table holds, because \<open>updateNode\<close> can store an object that lacks required fields (see below).
\<close>

record 'n FileTreeState =
  nodes :: "jsstring \<rightharpoonup> 'n"
  rootPaths :: "jsstring list"
  selectedNodes :: "jsstring list"
  expandedNodes :: "jsstring list"
  loadingNodes :: "jsstring list"
  searchQuery :: jsstring
  filteredNodes :: "jsstring list"

record 'n FileTreeStore = "'n FileTreeState" +
  config :: FileTreeConfig

type_synonym Store = "FileTreeNode FileTreeStore"

definition defaultConfig :: FileTreeConfig where
  "defaultConfig =
     \<lparr>showHiddenFiles = False, sortBy = ByName, sortOrder = Asc, maxDepth = 10,
      autoExpand = False, enableVirtualization = True\<rparr>"

definition initialState :: "'n FileTreeStore" where
  "initialState =
     \<lparr>nodes = Map.empty, rootPaths = [], selectedNodes = [], expandedNodes = [],
      loadingNodes = [], searchQuery = [], filteredNodes = [], config = defaultConfig\<rparr>"

datatype EventType = Created | Modified | Deleted | Renamed

record Stats =
  st_size :: int
  st_lastModified :: int
  isDirectory :: bool

record FileWatchEvent =
  ev_type :: EventType
  ev_path :: jsstring
  oldPath :: "jsstring option"
  stats :: "Stats option"

section \<open>Tree store (\<^verbatim>\<open>stores/fileTreeStore\<close>)\<close>

subsection \<open>Basic operations\<close>

definition setNodes :: "FileTreeNode list \<Rightarrow> Store \<Rightarrow> Store" where
  "setNodes ns s =
     s\<lparr>nodes := fold (\<lambda>node m. m(id' node \<mapsto> node)) ns Map.empty,
       rootPaths := map path (filter (\<lambda>node. depth node = 0) ns)\<rparr>"

definition addNode :: "FileTreeNode \<Rightarrow> Store \<Rightarrow> Store" where
  "addNode node s =
     s\<lparr>nodes := (nodes s)(id' node \<mapsto> node),
       rootPaths := (if depth node = 0 then rootPaths s @ [path node] else rootPaths s)\<rparr>"

text \<open>
  \<open>removeNode\<close>. The inner \<^verbatim>\<open>deleteChildren\<close> recurses through the table: it looks the id
  up, calls itself on the \<open>id\<close> of every object in that entry's \<open>children\<close> array, then
  deletes the id. Nothing bounds that recursion (an entry whose \<open>children\<close> holds an object
  with the entry's own id recurses for ever), so the model counts call-stack frames:
  with none left the call fails, as the engine's RangeError does.
\<close>

fun deleteChildren :: "nat \<Rightarrow> jsstring \<Rightarrow> (jsstring \<rightharpoonup> FileTreeNode)
                         \<Rightarrow> (jsstring \<rightharpoonup> FileTreeNode) option"
  and forEachChild :: "nat \<Rightarrow> FileTreeNode list \<Rightarrow> (jsstring \<rightharpoonup> FileTreeNode)
                         \<Rightarrow> (jsstring \<rightharpoonup> FileTreeNode) option"
where
  "deleteChildren 0 nodeId newNodes = None"
| "deleteChildren (Suc k) nodeId newNodes =
     (case (case newNodes nodeId of None \<Rightarrow> None | Some nodeToDelete \<Rightarrow> children nodeToDelete) of
        None \<Rightarrow> Some (newNodes(nodeId := None))
      | Some cs \<Rightarrow>
          (case forEachChild k cs newNodes of
             None \<Rightarrow> None
           | Some newNodes' \<Rightarrow> Some (newNodes'(nodeId := None))))"
| "forEachChild k [] newNodes = Some newNodes"
| "forEachChild k (child # cs) newNodes =
     (case deleteChildren k (id' child) newNodes of
        None \<Rightarrow> None
      | Some newNodes' \<Rightarrow> forEachChild k cs newNodes')"

definition removeNode :: "nat \<Rightarrow> jsstring \<Rightarrow> Store \<Rightarrow> error + Store" where
  "removeNode stack i s =
     (case (case nodes s i of
              None \<Rightarrow> Some (nodes s)
            | Some node \<Rightarrow> deleteChildren stack i (nodes s)) of
        None \<Rightarrow> Inl RangeError
      | Some newNodes \<Rightarrow>
          Inr (s\<lparr>nodes := newNodes,
                 selectedNodes := filter (\<lambda>nodeId. nodeId \<noteq> i) (selectedNodes s),
                 expandedNodes := filter (\<lambda>nodeId. nodeId \<noteq> i) (expandedNodes s),
                 loadingNodes := filter (\<lambda>nodeId. nodeId \<noteq> i) (loadingNodes s),
                 rootPaths :=
                   (case nodes s i of
                      None \<Rightarrow> rootPaths s
                    | Some node \<Rightarrow>
                        if depth node = 0 then filter (\<lambda>p. p \<noteq> path node) (rootPaths s)
                        else rootPaths s)\<rparr>))"

subsection \<open>Expansion and selection\<close>

definition expandNode :: "jsstring \<Rightarrow> 'n FileTreeStore \<Rightarrow> 'n FileTreeStore" where
  "expandNode nodeId s =
     s\<lparr>expandedNodes :=
         (if nodeId \<in> set (expandedNodes s) then expandedNodes s
          else expandedNodes s @ [nodeId])\<rparr>"

definition collapseNode :: "jsstring \<Rightarrow> 'n FileTreeStore \<Rightarrow> 'n FileTreeStore" where
  "collapseNode nodeId s =
     s\<lparr>expandedNodes := filter (\<lambda>i. i \<noteq> nodeId) (expandedNodes s)\<rparr>"

definition selectNode :: "jsstring \<Rightarrow> bool \<Rightarrow> 'n FileTreeStore \<Rightarrow> 'n FileTreeStore" where
  "selectNode nodeId multiSelect s =
     (if multiSelect then
        s\<lparr>selectedNodes :=
            (if nodeId \<in> set (selectedNodes s)
             then filter (\<lambda>i. i \<noteq> nodeId) (selectedNodes s)
             else selectedNodes s @ [nodeId])\<rparr>
      else s\<lparr>selectedNodes := [nodeId]\<rparr>)"








subsection \<open>\<open>updateNode\<close> and \<open>setLoading\<close>\<close>

text \<open>
  \<^verbatim>\<open>Partial<FileTreeNode>\<close>: every field optional. The spread
  \<^verbatim>\<open>{ ...state.nodes[id], ...updates }\<close> takes each field from \<open>updates\<close> where it is
  present and from the stored object otherwise; spreading \<open>undefined\<close> contributes nothing.
  For an absent id the object so built has the fields of \<open>updates\<close> only, which need not
  be a \<open>FileTreeNode\<close>: \<open>updateNode\<close> and \<open>setLoading\<close> are therefore given on the store as
  it is at run time, whose table holds such objects. \<open>raw\<close> views a typed store that way.
\<close>

record PartialNode =
  p_id :: "jsstring option"
  p_name :: "jsstring option"
  p_path :: "jsstring option"
  p_type :: "NodeType option"
  p_size :: "int option"
  p_lastModified :: "int option"
  p_children :: "FileTreeNode list option"
  p_isExpanded :: "bool option"
  p_isLoading :: "bool option"
  p_parent :: "jsstring option"
  p_depth :: "int option"

type_synonym RawStore = "PartialNode FileTreeStore"

definition emptyObject :: PartialNode where
  "emptyObject =
     \<lparr>p_id = None, p_name = None, p_path = None, p_type = None, p_size = None,
      p_lastModified = None, p_children = None, p_isExpanded = None, p_isLoading = None,
      p_parent = None, p_depth = None\<rparr>"

definition partial :: "FileTreeNode \<Rightarrow> PartialNode" where
  "partial n =
     \<lparr>p_id = Some (id' n), p_name = Some (name n), p_path = Some (path n),
      p_type = Some (type' n), p_size = size' n, p_lastModified = lastModified n,
      p_children = children n, p_isExpanded = isExpanded n, p_isLoading = isLoading n,
      p_parent = parent n, p_depth = Some (depth n)\<rparr>"

definition orElse :: "'a option \<Rightarrow> 'a option \<Rightarrow> 'a option" where
  "orElse u b = (case u of None \<Rightarrow> b | Some v \<Rightarrow> Some v)"

definition spread :: "PartialNode \<Rightarrow> PartialNode \<Rightarrow> PartialNode" where
  "spread b u =
     \<lparr>p_id = orElse (p_id u) (p_id b), p_name = orElse (p_name u) (p_name b),
      p_path = orElse (p_path u) (p_path b), p_type = orElse (p_type u) (p_type b),
      p_size = orElse (p_size u) (p_size b),
      p_lastModified = orElse (p_lastModified u) (p_lastModified b),
      p_children = orElse (p_children u) (p_children b),
      p_isExpanded = orElse (p_isExpanded u) (p_isExpanded b),
      p_isLoading = orElse (p_isLoading u) (p_isLoading b),
      p_parent = orElse (p_parent u) (p_parent b),
      p_depth = orElse (p_depth u) (p_depth b)\<rparr>"

definition raw :: "Store \<Rightarrow> RawStore" where
  "raw s =
     \<lparr>nodes = map_option partial \<circ> nodes s, rootPaths = rootPaths s,
      selectedNodes = selectedNodes s, expandedNodes = expandedNodes s,
      loadingNodes = loadingNodes s, searchQuery = searchQuery s,
      filteredNodes = filteredNodes s, config = config s\<rparr>"

definition updateNode :: "jsstring \<Rightarrow> PartialNode \<Rightarrow> RawStore \<Rightarrow> RawStore" where
  "updateNode i updates s =
     s\<lparr>nodes :=
         (nodes s)(i \<mapsto> spread (case nodes s i of None \<Rightarrow> emptyObject | Some n \<Rightarrow> n) updates)\<rparr>"

definition setLoading :: "jsstring \<Rightarrow> bool \<Rightarrow> RawStore \<Rightarrow> RawStore" where
  "setLoading nodeId loading s =
     updateNode nodeId (emptyObject\<lparr>p_isLoading := Some loading\<rparr>)
       (s\<lparr>loadingNodes :=
            (if loading then
               (if nodeId \<in> set (loadingNodes s) then loadingNodes s
                else loadingNodes s @ [nodeId])
             else filter (\<lambda>i. i \<noteq> nodeId) (loadingNodes s))\<rparr>)"

text \<open>
  The same spread on a stored \<open>FileTreeNode\<close>: the result is a \<open>FileTreeNode\<close> again
  (\<open>updateNode_present\<close> below relates it to \<open>updateNode\<close>).
\<close>

definition mergeNode :: "FileTreeNode \<Rightarrow> PartialNode \<Rightarrow> FileTreeNode" where
  "mergeNode n u =
     FileTreeNode
       (case p_id u of None \<Rightarrow> id' n | Some v \<Rightarrow> v)
       (case p_name u of None \<Rightarrow> name n | Some v \<Rightarrow> v)
       (case p_path u of None \<Rightarrow> path n | Some v \<Rightarrow> v)
       (case p_type u of None \<Rightarrow> type' n | Some v \<Rightarrow> v)
       (orElse (p_size u) (size' n))
       (orElse (p_lastModified u) (lastModified n))
       (orElse (p_children u) (children n))
       (orElse (p_isExpanded u) (isExpanded n))
       (orElse (p_isLoading u) (isLoading n))
       (orElse (p_parent u) (parent n))
       (case p_depth u of None \<Rightarrow> depth n | Some v \<Rightarrow> v)"

subsection \<open>Sorting\<close>

text \<open>
  \<^verbatim>\<open>[...nodes].sort(compare)\<close>. \<open>Array.prototype.sort\<close> is stable; it is modelled by a
  stable insertion sort, which for a comparator that is a consistent ordering returns
  what every stable sort returns. An element goes before the first one it does not
  compare greater than.
\<close>

fun insertBy :: "('a \<Rightarrow> 'a \<Rightarrow> int) \<Rightarrow> 'a \<Rightarrow> 'a list \<Rightarrow> 'a list" where
  "insertBy cmp x [] = [x]"
| "insertBy cmp x (y # ys) = (if cmp x y \<le> 0 then x # y # ys else y # insertBy cmp x ys)"

definition arraySort :: "('a \<Rightarrow> 'a \<Rightarrow> int) \<Rightarrow> 'a list \<Rightarrow> 'a list" where
  "arraySort cmp xs = foldr (insertBy cmp) xs []"

text \<open>
  \<^verbatim>\<open>name.split('.').pop()\<close>: the part after the last dot, the whole name without one.
\<close>

definition extension :: "jsstring \<Rightarrow> jsstring" where
  "extension n = rev (takeWhile (\<lambda>c. c \<noteq> 46) (rev n))"

text \<open>
  The comparator of \<open>sortNodesByConfig\<close>. \<open>localeCompare\<close> is the engine's collation and
  is not in the repository: \<open>lcName\<close> stands for
  \<^verbatim>\<open>a.localeCompare(b, 'zh-CN', { numeric: true })\<close> and \<open>lcExt\<close> for \<^verbatim>\<open>a.localeCompare(b)\<close>.
  \<^verbatim>\<open>a.size || 0\<close> reads an absent size as 0.
\<close>

definition compareNodes ::
  "(jsstring \<Rightarrow> jsstring \<Rightarrow> int) \<Rightarrow> (jsstring \<Rightarrow> jsstring \<Rightarrow> int) \<Rightarrow> SortBy \<Rightarrow> SortOrder
     \<Rightarrow> FileTreeNode \<Rightarrow> FileTreeNode \<Rightarrow> int" where
  "compareNodes lcName lcExt by ord a b =
     (let comparison =
        (if type' a \<noteq> type' b then (if type' a = Directory then - 1 else 1)
         else (case by of
                 ByName \<Rightarrow> lcName (name a) (name b)
               | ByType \<Rightarrow> lcExt (extension (name a)) (extension (name b))
               | BySize \<Rightarrow>
                   (case size' a of None \<Rightarrow> 0 | Some v \<Rightarrow> v) -
                   (case size' b of None \<Rightarrow> 0 | Some v \<Rightarrow> v)
               | ByModified \<Rightarrow>
                   (case lastModified a of None \<Rightarrow> 0 | Some v \<Rightarrow> v) -
                   (case lastModified b of None \<Rightarrow> 0 | Some v \<Rightarrow> v)))
      in if ord = Desc then - comparison else comparison)"

definition sortNodesByConfig ::
  "(jsstring \<Rightarrow> jsstring \<Rightarrow> int) \<Rightarrow> (jsstring \<Rightarrow> jsstring \<Rightarrow> int) \<Rightarrow> FileTreeNode list
     \<Rightarrow> SortBy \<Rightarrow> SortOrder \<Rightarrow> FileTreeNode list" where
  "sortNodesByConfig lcName lcExt ns by ord = arraySort (compareNodes lcName lcExt by ord) ns"

text \<open>
  \<open>sortNodes\<close> sorts the \<open>children\<close> array of every table entry that has a non-empty one.
  (The source assigns the sorted array to the entry object itself; an object that is also
  held in another entry's \<open>children\<close> array shows the assignment there too. The order of
  a sorted array does not depend on that, and the model keeps the copies apart.)
\<close>

definition sortChildren ::
  "(jsstring \<Rightarrow> jsstring \<Rightarrow> int) \<Rightarrow> (jsstring \<Rightarrow> jsstring \<Rightarrow> int) \<Rightarrow> SortBy \<Rightarrow> SortOrder
     \<Rightarrow> FileTreeNode \<Rightarrow> FileTreeNode" where
  "sortChildren lcName lcExt by ord node =
     (case children node of
        None \<Rightarrow> node
      | Some cs \<Rightarrow>
          if length cs > 0 then
            FileTreeNode (id' node) (name node) (path node) (type' node) (size' node)
              (lastModified node) (Some (sortNodesByConfig lcName lcExt cs by ord))
              (isExpanded node) (isLoading node) (parent node) (depth node)
          else node)"

definition sortNodes ::
  "(jsstring \<Rightarrow> jsstring \<Rightarrow> int) \<Rightarrow> (jsstring \<Rightarrow> jsstring \<Rightarrow> int) \<Rightarrow> SortBy \<Rightarrow> SortOrder
     \<Rightarrow> Store \<Rightarrow> Store" where
  "sortNodes lcName lcExt by ord s =
     s\<lparr>config := (config s)\<lparr>sortBy := by, sortOrder := ord\<rparr>,
       nodes := map_option (sortChildren lcName lcExt by ord) \<circ> nodes s\<rparr>"


subsection \<open>Watch events\<close>

text \<open>
  \<^verbatim>\<open>s.split('/')\<close> and \<^verbatim>\<open>parts.join('/')\<close>. A split never returns an empty array.
\<close>

fun splitOn :: "'a \<Rightarrow> 'a list \<Rightarrow> 'a list list" where
  "splitOn sep [] = [[]]"
| "splitOn sep (c # cs) =
     (if c = sep then [] # splitOn sep cs
      else (case splitOn sep cs of [] \<Rightarrow> [[c]] | p # ps \<Rightarrow> (c # p) # ps))"

fun joinWith :: "'a \<Rightarrow> 'a list list \<Rightarrow> 'a list" where
  "joinWith sep [] = []"
| "joinWith sep [p] = p"
| "joinWith sep (p # q # ps) = p @ sep # joinWith sep (q # ps)"

definition slash :: "16 word" where
  "slash = 47"

text \<open>
  \<open>handleFileWatchEvent\<close>. The id of \<open>event.path\<close> is computed before the \<open>switch\<close>, for every
  event type. \<open>stack\<close> is the call-stack allowance of \<open>removeNode\<close>. A string condition such as
  \<^verbatim>\<open>event.oldPath && ...\<close> holds for a present, non-empty string. In the \<open>modified\<close> branch
  \<open>updateNode\<close> runs on an id that was just found in the table, where it is \<open>mergeNode\<close>
  on the stored node.
\<close>

definition createdNode :: "jsstring \<Rightarrow> jsstring \<Rightarrow> jsstring \<Rightarrow> Stats \<Rightarrow> FileTreeNode" where
  "createdNode nodeId p parentId st =
     (let pathParts = splitOn slash p
      in FileTreeNode nodeId (last pathParts) p
           (if isDirectory st then Directory else File)
           (Some (st_size st)) (Some (st_lastModified st))
           (if isDirectory st then Some [] else None)
           None None (Some parentId) (int (length pathParts) - 1))"

definition renamedNode :: "FileTreeNode \<Rightarrow> jsstring \<Rightarrow> jsstring \<Rightarrow> FileTreeNode" where
  \<comment> \<open>\<^verbatim>\<open>{ ...oldNode, id: nodeId, name, path: event.path }\<close>\<close>
  "renamedNode oldNode nodeId p =
     FileTreeNode nodeId (last (splitOn slash p)) p (type' oldNode) (size' oldNode)
       (lastModified oldNode) (children oldNode) (isExpanded oldNode) (isLoading oldNode)
       (parent oldNode) (depth oldNode)"

definition handleFileWatchEvent :: "nat \<Rightarrow> FileWatchEvent \<Rightarrow> Store \<Rightarrow> error + Store" where
  "handleFileWatchEvent stack event s =
     (case generateNodeId (ev_path event) of
        Inl e \<Rightarrow> Inl e
      | Inr nodeId \<Rightarrow>
          (case ev_type event of
             Created \<Rightarrow>
               (case stats event of
                  None \<Rightarrow> Inr s
                | Some st \<Rightarrow>
                    (case generateNodeId
                            (joinWith slash (butlast (splitOn slash (ev_path event)))) of
                       Inl e \<Rightarrow> Inl e
                     | Inr parentId \<Rightarrow>
                         Inr (addNode (createdNode nodeId (ev_path event) parentId st) s)))
           | Modified \<Rightarrow>
               (case (stats event, nodes s nodeId) of
                  (Some st, Some n) \<Rightarrow>
                    Inr (s\<lparr>nodes :=
                            (nodes s)(nodeId \<mapsto>
                               mergeNode n
                                 (emptyObject\<lparr>p_size := Some (st_size st),
                                    p_lastModified := Some (st_lastModified st)\<rparr>))\<rparr>)
                | _ \<Rightarrow> Inr s)
           | Deleted \<Rightarrow>
               (case nodes s nodeId of
                  None \<Rightarrow> Inr s
                | Some n \<Rightarrow> removeNode stack nodeId s)
           | Renamed \<Rightarrow>
               (case oldPath event of
                  None \<Rightarrow> Inr s
                | Some old \<Rightarrow>
                    if old = [] then Inr s
                    else (case generateNodeId old of
                            Inl e \<Rightarrow> Inl e
                          | Inr oldNodeId \<Rightarrow>
                              (case nodes s oldNodeId of
                                 None \<Rightarrow> Inr s
                               | Some oldNode \<Rightarrow>
                                   (case removeNode stack oldNodeId s of
                                      Inl e \<Rightarrow> Inl e
                                    | Inr s' \<Rightarrow>
                                        Inr (addNode
                                               (renamedNode oldNode nodeId (ev_path event))
                                               s')))))))"

section \<open>Tree service (\<^verbatim>\<open>services/fileTreeService\<close>)\<close>

subsection \<open>Cache\<close>

text \<open>
  The two maps of \<^verbatim>\<open>class FileTreeService\<close>. \<open>Date.now()\<close> is a parameter of every
  operation that reads the clock, in milliseconds.
\<close>

record FileTreeService =
  cache :: "jsstring \<rightharpoonup> FileTreeNode list"
  cacheExpiry :: "jsstring \<rightharpoonup> int"

definition CACHE_DURATION :: int where
  "CACHE_DURATION = 5 * 60 * 1000"

definition expiredAt :: "int \<Rightarrow> FileTreeService \<Rightarrow> jsstring \<Rightarrow> bool" where
  "expiredAt now c key = (case cacheExpiry c key of None \<Rightarrow> False | Some expiry \<Rightarrow> now > expiry)"

definition cleanExpiredCache :: "int \<Rightarrow> FileTreeService \<Rightarrow> FileTreeService" where
  "cleanExpiredCache now c =
     \<lparr>cache = (\<lambda>key. if expiredAt now c key then None else cache c key),
      cacheExpiry = (\<lambda>key. if expiredAt now c key then None else cacheExpiry c key)\<rparr>"

definition getCachedNodes ::
  "int \<Rightarrow> jsstring \<Rightarrow> FileTreeService \<Rightarrow> FileTreeNode list option \<times> FileTreeService" where
  "getCachedNodes now p c = (let c' = cleanExpiredCache now c in (cache c' p, c'))"

definition setCachedNodes ::
  "int \<Rightarrow> jsstring \<Rightarrow> FileTreeNode list \<Rightarrow> FileTreeService \<Rightarrow> FileTreeService" where
  "setCachedNodes now p ns c =
     \<lparr>cache = (cache c)(p \<mapsto> ns), cacheExpiry = (cacheExpiry c)(p \<mapsto> now + CACHE_DURATION)\<rparr>"

definition clearCache :: "jsstring \<Rightarrow> FileTreeService \<Rightarrow> FileTreeService" where
  "clearCache p c = \<lparr>cache = (cache c)(p := None), cacheExpiry = (cacheExpiry c)(p := None)\<rparr>"

definition clearAllCache :: "FileTreeService \<Rightarrow> FileTreeService" where
  "clearAllCache c = \<lparr>cache = Map.empty, cacheExpiry = Map.empty\<rparr>"


subsection \<open>Deleting through the gateway\<close>

text \<open>
  The gateway is \<^verbatim>\<open>window.electronAPI.fileOperations.delete\<close>, outside the repository's
  renderer code: a call hands it a request and returns a promise, which the gateway
  settles later, with a \<^verbatim>\<open>FileOperationResult\<close> or with an error message. Messages are
  code units; the Chinese literals of the source are written out as such.
\<close>

record DeleteRequest =
  req_path :: jsstring
  req_isDirectory :: bool

record FileOperationResult =
  success :: bool
  err :: "jsstring option"

datatype 'a settled = Fulfilled 'a | Rejected jsstring

text \<open>
  The functions of the two services are \<^verbatim>\<open>async\<close>: each runs up to an \<^verbatim>\<open>await\<close> and goes on
  when the awaited promise has settled. A function below is the part of the source
  function that runs then, and takes what the awaited promise has settled with.

  The arrow that \<open>deleteItem\<close> hands to \<open>withRetry\<close>, after its \<^verbatim>\<open>await\<close> of the gateway:
  it throws the error of a result that has \<open>success: false\<close> and a non-empty \<open>error\<close>, and
  returns every other result.
\<close>

definition deleteOperation :: "FileOperationResult settled \<Rightarrow> FileOperationResult settled" where
  "deleteOperation reply =
     (case reply of
        Rejected m \<Rightarrow> Rejected m
      | Fulfilled result \<Rightarrow>
          (case err result of
             None \<Rightarrow> Fulfilled result
           | Some m \<Rightarrow> if \<not> success result \<and> m \<noteq> [] then Rejected m else Fulfilled result))"

definition maxRetries :: nat where
  "maxRetries = 3"

definition retryMessage :: "jsstring \<Rightarrow> jsstring \<Rightarrow> jsstring" where
  \<comment> \<open>operationName, then "failed, retried 3 times: ", then the last message\<close>
  "retryMessage operationName m =
     operationName @ [0x5931, 0x8D25, 0xFF0C, 0x5DF2, 0x91CD, 0x8BD5, 0x20] @ ascii ''3'' @
     [0x20, 0x6B21, 0x3A, 0x20] @ m"

text \<open>
  \<open>withRetry\<close>, the body of its loop after \<^verbatim>\<open>await operation()\<close> in attempt number
  \<open>attempt\<close>: \<open>Inr\<close> is what its promise settles with; \<open>Inl lastError\<close> is the loop going on,
  which waits for \<^verbatim>\<open>retryDelay * attempt\<close> and then comes to its head again.
  \<open>withRetry_next\<close> is the head of the loop in the attempt after \<open>attempt\<close>: \<open>None\<close> is the
  next call of the operation, \<open>Some\<close> the \<^verbatim>\<open>throw lastError\<close> that follows the loop.
\<close>

definition withRetry :: "nat \<Rightarrow> jsstring \<Rightarrow> 'a settled \<Rightarrow> jsstring + 'a settled" where
  "withRetry attempt operationName outcome =
     (case outcome of
        Fulfilled r \<Rightarrow> Inr (Fulfilled r)
      | Rejected m \<Rightarrow>
          if attempt = maxRetries then Inr (Rejected (retryMessage operationName m))
          else Inl m)"

definition withRetry_next :: "nat \<Rightarrow> jsstring \<Rightarrow> 'a settled option" where
  "withRetry_next attempt lastError =
     (if attempt + 1 \<le> maxRetries then None else Some (Rejected lastError))"

text \<open>
  \<open>deleteItem\<close>: its promise settles as the one of \<open>withRetry\<close> does, run on the operation
  above under the name "delete file". \<open>apiUnavailable\<close> is the message that
  \<^verbatim>\<open>checkElectronAPI\<close> throws when \<^verbatim>\<open>window.electronAPI?.fileOperations\<close> is absent;
  \<open>deleteItem\<close> then rejects with it and calls nothing.
\<close>

definition deleteItem :: "nat \<Rightarrow> FileOperationResult settled \<Rightarrow> jsstring + FileOperationResult settled" where
  "deleteItem attempt reply =
     withRetry attempt [0x5220, 0x9664, 0x6587, 0x4EF6] (deleteOperation reply)"

definition apiUnavailable :: jsstring where
  "apiUnavailable =
     ascii ''Electron API '' @ [0x4E0D, 0x53EF, 0x7528, 0xFF0C, 0x8BF7, 0x786E, 0x4FDD,
       0x5E94, 0x7528, 0x5728] @ ascii '' Electron '' @ [0x73AF, 0x5883, 0x4E2D, 0x8FD0, 0x884C]"

definition requestFor :: "FileTreeNode \<Rightarrow> DeleteRequest" where
  \<comment> \<open>the request that \<open>deleteNode\<close> has \<open>deleteItem\<close> send for a node\<close>
  "requestFor node = \<lparr>req_path = path node, req_isDirectory = (type' node = Directory)\<rparr>"

definition parentPathOf :: "jsstring \<Rightarrow> jsstring" where
  \<comment> \<open>\<^verbatim>\<open>node.path.substring(0, node.path.lastIndexOf('/'))\<close>\<close>
  "parentPathOf p = rev (drop 1 (dropWhile (\<lambda>c. c \<noteq> slash) (rev p)))"

text \<open>
  \<open>deleteNode\<close>, after its \<^verbatim>\<open>await\<close> of \<open>deleteItem\<close>. It catches everything thrown in its
  body and returns \<open>false\<close>; the message goes to the notification service only, which is
  not modelled (its methods return nothing the service reads and do not throw).
\<close>

definition deleteNode ::
  "FileTreeNode \<Rightarrow> FileOperationResult settled \<Rightarrow> FileTreeService \<Rightarrow> bool \<times> FileTreeService" where
  "deleteNode node outcome c =
     (case outcome of
        Rejected m \<Rightarrow> (False, c)
      | Fulfilled result \<Rightarrow>
          if \<not> success result then (False, c)
          else (True,
                (case parent node of
                   None \<Rightarrow> clearCache (path node) c
                 | Some pid \<Rightarrow>
                     if pid = [] then clearCache (path node) c
                     else clearCache (parentPathOf (path node)) (clearCache (path node) c))))"

text \<open>
  \<open>deleteMultipleNodes\<close>. The \<^verbatim>\<open>nodes.map\<close> calls the arrow for every node in turn, and each
  call runs as far as the gateway: when the \<^verbatim>\<open>map\<close> has returned, a request for every
  node is in flight and none has settled. What happens next is up to the environment,
  which settles the requests and lets the retry delays elapse in an order and with
  results of its choosing. That is an \<open>event\<close>: \<open>Reply i reply\<close>, the gateway settles the
  request in flight for the \<open>i\<close>-th node of the batch with \<open>reply\<close>; \<open>Timer i\<close>, the retry
  delay of the \<open>i\<close>-th node elapses. The renderer handles an event to its end before the
  next one: the continuations of a settled promise run as microtasks.

  A \<open>Batch\<close> is the state of one call: for every node the \<open>phase\<close> its arrow is in
  (a request of the given attempt is in flight; the given attempt has failed with
  \<open>lastError\<close> and the delay is running; \<open>deleteNode\<close> has returned the given value and
  the node has been pushed), the requests handed to the gateway so far, the two arrays,
  and the service's cache.
\<close>

datatype event = Reply nat "FileOperationResult settled" | Timer nat

datatype phase = InFlight nat | Delayed nat jsstring | Settled bool

record BatchResult =
  successful :: "FileTreeNode list"
  failed :: "(FileTreeNode \<times> jsstring) list"

record Batch =
  tasks :: "(FileTreeNode \<times> phase) list"
  calls :: "DeleteRequest list"
  result :: BatchResult
  service :: FileTreeService

definition deleteFailed :: jsstring where
  "deleteFailed = [0x5220, 0x9664, 0x5931, 0x8D25]"

text \<open>
  The arrow of \<open>deleteMultipleNodes\<close> for one node, from the moment the promise of
  \<open>deleteItem\<close> settles: \<open>deleteNode\<close> goes on and returns, and the arrow pushes the node.
  The \<^verbatim>\<open>catch\<close> around \<open>deleteNode\<close> in the arrow is never entered, since \<open>deleteNode\<close>
  does not throw. \<open>deleteFailed\<close> is the literal pushed with a failed node.
\<close>

definition push :: "FileTreeNode \<Rightarrow> FileOperationResult settled \<Rightarrow> Batch \<Rightarrow> bool \<times> Batch" where
  "push node outcome b =
     (case deleteNode node outcome (service b) of
        (ok, c') \<Rightarrow>
          (ok,
           b\<lparr>result :=
               (if ok then (result b)\<lparr>successful := successful (result b) @ [node]\<rparr>
                else (result b)\<lparr>failed := failed (result b) @ [(node, deleteFailed)]\<rparr>),
             service := c'\<rparr>))"

definition settle :: "nat \<Rightarrow> FileTreeNode \<Rightarrow> FileOperationResult settled \<Rightarrow> Batch \<Rightarrow> Batch" where
  "settle i node outcome b =
     (case push node outcome b of
        (ok, b') \<Rightarrow> b'\<lparr>tasks := (tasks b')[i := (node, Settled ok)]\<rparr>)"

text \<open>
  One event. \<open>None\<close>: the event cannot occur in this state (no request of that node is
  in flight, or no delay of it is running).
\<close>

fun step :: "event \<Rightarrow> Batch \<Rightarrow> Batch option" where
  "step (Reply i reply) b =
     (if i < length (tasks b) then
        (case tasks b ! i of
           (node, InFlight attempt) \<Rightarrow>
             (case deleteItem attempt reply of
                Inr outcome \<Rightarrow> Some (settle i node outcome b)
              | Inl lastError \<Rightarrow>
                  Some (b\<lparr>tasks := (tasks b)[i := (node, Delayed attempt lastError)]\<rparr>))
         | (node, Delayed attempt lastError) \<Rightarrow> None
         | (node, Settled ok) \<Rightarrow> None)
      else None)"
| "step (Timer i) b =
     (if i < length (tasks b) then
        (case tasks b ! i of
           (node, Delayed attempt lastError) \<Rightarrow>
             (case withRetry_next attempt lastError of
                None \<Rightarrow>
                  Some (b\<lparr>tasks := (tasks b)[i := (node, InFlight (attempt + 1))],
                          calls := calls b @ [requestFor node]\<rparr>)
              | Some outcome \<Rightarrow> Some (settle i node outcome b))
         | (node, InFlight attempt) \<Rightarrow> None
         | (node, Settled ok) \<Rightarrow> None)
      else None)"

fun run :: "event list \<Rightarrow> Batch \<Rightarrow> Batch option" where
  "run [] b = Some b"
| "run (e # es) b = (case step e b of None \<Rightarrow> None | Some b' \<Rightarrow> run es b')"

text \<open>
  The state when \<^verbatim>\<open>nodes.map\<close> has returned and the microtasks it left have run.
  With the API there, every node has its first request in flight. With the API absent,
  every \<open>deleteItem\<close> has rejected without a call, and the arrows have pushed their nodes
  in the order of the input.
\<close>

definition refuse :: "Batch \<Rightarrow> FileTreeNode \<Rightarrow> Batch" where
  "refuse b node =
     (case push node (Rejected apiUnavailable) b of
        (ok, b') \<Rightarrow> b'\<lparr>tasks := tasks b' @ [(node, Settled ok)]\<rparr>)"

definition start :: "bool \<Rightarrow> FileTreeNode list \<Rightarrow> FileTreeService \<Rightarrow> Batch" where
  "start available ns c =
     (if available then
        \<lparr>tasks = map (\<lambda>node. (node, InFlight 1)) ns, calls = map requestFor ns,
         result = \<lparr>successful = [], failed = []\<rparr>, service = c\<rparr>
      else
        foldl refuse
          \<lparr>tasks = [], calls = [], result = \<lparr>successful = [], failed = []\<rparr>, service = c\<rparr> ns)"

text \<open>
  \<open>deleteMultipleNodes available ns c trace\<close> is the state of the call on \<open>ns\<close> after the
  events of \<open>trace\<close>, \<open>None\<close> if they cannot occur in that order. \<open>returned\<close> is what the
  call has returned in a state: \<^verbatim>\<open>Promise.all\<close> resolves when every arrow has settled,
  and the function then returns the two arrays; until then its promise is pending
  (\<open>None\<close>).
\<close>

definition deleteMultipleNodes ::
  "bool \<Rightarrow> FileTreeNode list \<Rightarrow> FileTreeService \<Rightarrow> event list \<Rightarrow> Batch option" where
  "deleteMultipleNodes available ns c trace = run trace (start available ns c)"

fun isSettled :: "phase \<Rightarrow> bool" where
  "isSettled (Settled ok) = True"
| "isSettled (InFlight attempt) = False"
| "isSettled (Delayed attempt lastError) = False"

definition returned :: "Batch \<Rightarrow> BatchResult option" where
  "returned b = (if list_all (\<lambda>t. isSettled (snd t)) (tasks b) then Some (result b) else None)"


section \<open>Notions used to state and prove the properties of the identity function\<close>

text \<open>
  \<open>alphanumeric\<close>: an ASCII letter or digit. \<open>tilde\<close>: the code unit of \<open>~\<close>. \<open>plain\<close>: an ASCII
  character whose last six bits are not 62 or 63, so that base64 maps no group ending in
  it to \<open>+\<close> or \<open>/\<close>. \<open>b64chars\<close> and \<open>hexChars\<close> name the two alphabets.
  \<open>utf8Length\<close> reads the length of a UTF-8 sequence off its first octet.
\<close>

definition alphanumeric :: "nat \<Rightarrow> bool" where
  "alphanumeric c \<longleftrightarrow> (48 \<le> c \<and> c \<le> 57) \<or> (65 \<le> c \<and> c \<le> 90) \<or> (97 \<le> c \<and> c \<le> 122)"

definition b64chars :: string where
  "b64chars = ''ABCDEFGHIJKLMNOPQRSTUVWXYZabcdefghijklmnopqrstuvwxyz0123456789+/''"

definition plain :: "char \<Rightarrow> bool" where
  "plain ch \<longleftrightarrow> (of_char ch :: nat) < 128 \<and> (of_char ch :: nat) mod 64 < 62"

definition hexChars :: string where
  "hexChars = ''0123456789ABCDEF''"

definition utf8Length :: "nat \<Rightarrow> nat" where
  "utf8Length b = (if b < 0xC0 then 1 else if b < 0xE0 then 2 else if b < 0xF0 then 3 else 4)"

text \<open>
  What \<open>encodeUnits\<close> does with the first code unit: it copies an unreserved one, and
  escapes the code point \<open>v\<close> that the first one or two units stand for otherwise.
\<close>

definition escapes :: "nat \<Rightarrow> nat list \<Rightarrow> nat \<Rightarrow> nat list \<Rightarrow> bool" where
  "escapes c cs v rest \<longleftrightarrow>
     (v < 0x10000 \<and> v = c \<and> rest = cs) \<or>
     (0x10000 \<le> v \<and>
      (\<exists>d. cs = d # rest \<and> 0xD800 \<le> c \<and> 0xDC00 \<le> d \<and> d \<le> 0xDFFF \<and>
           v = (c - 0xD800) * 0x400 + (d - 0xDC00) + 0x10000))"

definition tilde :: "16 word" where
  "tilde = 126"

section \<open>Notions used to state the properties of sorting\<close>

text \<open>
  \<open>directoriesFirst\<close>: no file stands before a directory in the list.
\<close>

fun directoriesFirst :: "FileTreeNode list \<Rightarrow> bool" where
  "directoriesFirst [] = True"
| "directoriesFirst (x # xs) =
     ((type' x = File \<longrightarrow> (\<forall>y \<in> set xs. type' y = File)) \<and> directoriesFirst xs)"

section \<open>Notions used to state and prove the properties of the batch delete\<close>

text \<open>
  \<open>granted trace\<close>: the numbers of the nodes for which, among the events of \<open>trace\<close>, the
  gateway has fulfilled a request with \<open>success: true\<close>, in the order of these events.
  \<open>weight\<close> bounds the events a node can still take part in. \<open>phaseOK\<close> is what the phase
  of the \<open>i\<close>-th node says about the events so far, and \<open>invariant\<close> what holds of a call
  on \<open>ns\<close> after the events of \<open>trace\<close>.
\<close>

fun granting :: "event \<Rightarrow> nat list" where
  "granting (Reply i (Fulfilled r)) = (if success r then [i] else [])"
| "granting (Reply i (Rejected m)) = []"
| "granting (Timer i) = []"

definition granted :: "event list \<Rightarrow> nat list" where
  "granted trace = concat (map granting trace)"

fun weight :: "phase \<Rightarrow> nat" where
  "weight (InFlight attempt) = 2 * (maxRetries - attempt) + 1"
| "weight (Delayed attempt lastError) = 2 * (maxRetries - attempt)"
| "weight (Settled ok) = 0"

fun phaseOK :: "event list \<Rightarrow> nat \<Rightarrow> phase \<Rightarrow> bool" where
  "phaseOK trace i (InFlight attempt) =
     (1 \<le> attempt \<and> attempt \<le> maxRetries \<and> i \<notin> set (granted trace))"
| "phaseOK trace i (Delayed attempt lastError) =
     (1 \<le> attempt \<and> attempt < maxRetries \<and> i \<notin> set (granted trace))"
| "phaseOK trace i (Settled ok) = (ok = (i \<in> set (granted trace)))"

definition invariant :: "FileTreeNode list \<Rightarrow> event list \<Rightarrow> Batch \<Rightarrow> bool" where
  "invariant ns trace b \<longleftrightarrow>
     map fst (tasks b) = ns \<and>
     (\<forall>i < length ns. phaseOK trace i (snd (tasks b ! i))) \<and>
     distinct (granted trace) \<and>
     list_all (\<lambda>i. i < length ns) (granted trace) \<and>
     successful (result b) = map ((!) ns) (granted trace) \<and>
     mset (failed (result b)) =
       mset (map (\<lambda>t. (fst t, deleteFailed)) (filter (\<lambda>t. snd t = Settled False) (tasks b))) \<and>
     length trace + sum_list (map (\<lambda>t. weight (snd t)) (tasks b)) \<le> 5 * length ns"

section \<open>Fixtures\<close>

text \<open>The nodes of the store's test file (\<^verbatim>\<open>mockNodes\<close>): a root, its directory, a file in it.\<close>

definition mockRoot :: FileTreeNode where
  "mockRoot =
     FileTreeNode (ascii ''root'') (ascii ''project'') (ascii ''/project'') Directory
       None None (Some []) (Some False) (Some False) None 0"

definition mockSrc :: FileTreeNode where
  "mockSrc =
     FileTreeNode (ascii ''src'') (ascii ''src'') (ascii ''/project/src'') Directory
       None None (Some []) (Some False) (Some False) (Some (ascii ''root'')) 1"

definition mockFile1 :: FileTreeNode where
  "mockFile1 =
     FileTreeNode (ascii ''file1'') (ascii ''index.ts'') (ascii ''/project/src/index.ts'') File
       (Some 1024) (Some 1700000000000) None None None (Some (ascii ''src'')) 2"

definition mockNodes :: "FileTreeNode list" where
  "mockNodes = [mockRoot, mockSrc, mockFile1]"

definition mockStore :: Store where
  "mockStore = setNodes mockNodes initialState"

text \<open>Siblings \<open>[dir "z" size 0, file "a" size 5, file "b" size 20]\<close> under a directory.\<close>

definition dirZ :: FileTreeNode where
  "dirZ =
     FileTreeNode (ascii ''z'') (ascii ''z'') (ascii ''/p/z'') Directory (Some 0) None (Some [])
       None None (Some (ascii ''p'')) 1"

definition fileA :: FileTreeNode where
  "fileA =
     FileTreeNode (ascii ''a'') (ascii ''a'') (ascii ''/p/a'') File (Some 5) None None
       None None (Some (ascii ''p'')) 1"

definition fileB :: FileTreeNode where
  "fileB =
     FileTreeNode (ascii ''b'') (ascii ''b'') (ascii ''/p/b'') File (Some 20) None None
       None None (Some (ascii ''p'')) 1"

definition dirP :: "FileTreeNode list \<Rightarrow> FileTreeNode" where
  "dirP cs =
     FileTreeNode (ascii ''p'') (ascii ''p'') (ascii ''/p'') Directory None None (Some cs)
       None None None 0"

definition siblingStore :: Store where
  "siblingStore = setNodes [dirP [dirZ, fileA, fileB]] initialState"

definition emptyService :: FileTreeService where
  "emptyService = \<lparr>cache = Map.empty, cacheExpiry = Map.empty\<rparr>"

text \<open>
  The gateway's two answers in the scenario of the batch delete, and the events of one
  run of it on \<open>[fileA, fileB]\<close>: the request for \<open>fileA\<close> succeeds, every request for
  \<open>fileB\<close> is answered \<open>{success: false, error: 'PermissionDenied'}\<close>.
\<close>

definition deleted :: "FileOperationResult settled" where
  "deleted = Fulfilled \<lparr>success = True, err = None\<rparr>"

definition permissionDenied :: "FileOperationResult settled" where
  "permissionDenied = Fulfilled \<lparr>success = False, err = Some (ascii ''PermissionDenied'')\<rparr>"

definition scenario :: "event list" where
  "scenario =
     [Reply 0 deleted, Reply 1 permissionDenied, Timer 1, Reply 1 permissionDenied, Timer 1,
      Reply 1 permissionDenied]"

section \<open>Properties\<close>

lemma ascii_simps:
  "ascii [] = []"
  "ascii (c # cs) = of_nat (of_char c) # ascii cs"
  by (simp_all add: ascii_def)

subsection \<open>Node identity\<close>

subsubsection \<open>The base64 alphabet\<close>

text \<open>
  The sixty-four characters are distinct, and all but the last two are letters or digits.
  On plain characters \<open>stripped\<close> removes the padding only.
\<close>

lemma b64_nth: "b64 n = b64chars ! n"
  by (simp add: b64_def b64chars_def)

lemma length_b64chars: "length b64chars = 64"
  by (simp add: b64chars_def)

lemma distinct_b64chars: "distinct b64chars"
  by (simp add: b64chars_def)

lemma b64_inj: "i < 64 \<Longrightarrow> j < 64 \<Longrightarrow> b64 i = b64 j \<longleftrightarrow> i = j"
  by (simp add: b64_nth nth_eq_iff_index_eq distinct_b64chars length_b64chars)

lemma b64_alnum: "n < 62 \<Longrightarrow> alphanumeric (of_char (b64 n))"
proof -
  assume n: "n < 62"
  have "\<forall>c \<in> set (take 62 b64chars). alphanumeric (of_char c)"
    by (simp add: b64chars_def alphanumeric_def)
  moreover have "take 62 b64chars ! n \<in> set (take 62 b64chars)"
    using n by (intro nth_mem) (simp add: length_b64chars)
  ultimately show ?thesis
    using n by (simp add: b64_nth)
qed

lemma b64_kept: "n < 62 \<Longrightarrow> b64 n \<notin> {CHR ''+'', CHR ''/'', CHR ''=''}"
proof
  assume "n < 62" and "b64 n \<in> {CHR ''+'', CHR ''/'', CHR ''=''}"
  from b64_alnum [OF this(1)] this(2) show False
    by (auto simp: alphanumeric_def)
qed

lemma stripped_Nil: "stripped [] = []"
  and stripped_Cons: "stripped (c # cs) =
         (if c \<in> {CHR ''+'', CHR ''/'', CHR ''=''} then stripped cs else c # stripped cs)"
  and stripped_append: "stripped (xs @ ys) = stripped xs @ stripped ys"
  by (simp_all add: stripped_def)

lemma stripped_b64: "n < 62 \<Longrightarrow> stripped (b64 n # cs) = b64 n # stripped cs"
  using b64_kept [of n] by (simp add: stripped_Cons)

lemma stripped_pad: "stripped (CHR ''='' # cs) = stripped cs"
  by (simp add: stripped_Cons)

lemma stripped_btoa_1:
  "plain a \<Longrightarrow>
     stripped (btoa [a]) = [b64 (of_char a div 4), b64 (of_char a mod 4 * 16)]"
proof -
  assume "plain a"
  then have "(of_char a :: nat) div 4 < 62" "(of_char a :: nat) mod 4 * 16 < 62"
    by (auto simp: plain_def)
  then show ?thesis
    by (simp add: Let_def stripped_b64 stripped_pad stripped_Nil)
qed

lemma stripped_btoa_2:
  "plain a \<Longrightarrow> plain b \<Longrightarrow>
     stripped (btoa [a, b]) =
       [b64 (of_char a div 4), b64 (of_char a mod 4 * 16 + of_char b div 16),
        b64 (of_char b mod 16 * 4)]"
proof -
  assume "plain a" "plain b"
  then have "(of_char a :: nat) div 4 < 62"
    "(of_char a :: nat) mod 4 * 16 + of_char b div 16 < 62"
    "(of_char b :: nat) mod 16 * 4 < 62"
    by (auto simp: plain_def)
  then show ?thesis
    by (simp add: Let_def stripped_b64 stripped_pad stripped_Nil)
qed

lemma stripped_btoa_3:
  "plain a \<Longrightarrow> plain b \<Longrightarrow> plain c \<Longrightarrow>
     stripped (btoa (a # b # c # rest)) =
       [b64 (of_char a div 4), b64 (of_char a mod 4 * 16 + of_char b div 16),
        b64 (of_char b mod 16 * 4 + of_char c div 64), b64 (of_char c mod 64)] @
       stripped (btoa rest)"
proof -
  assume "plain a" "plain b" "plain c"
  then have "(of_char a :: nat) div 4 < 62"
    "(of_char a :: nat) mod 4 * 16 + of_char b div 16 < 62"
    "(of_char b :: nat) mod 16 * 4 + of_char c div 64 < 62"
    "(of_char c :: nat) mod 64 < 62"
    by (auto simp: plain_def)
  then show ?thesis
    by (simp add: Let_def stripped_b64 stripped_pad stripped_Nil stripped_append)
qed

lemma length_stripped_btoa:
  "list_all plain s \<Longrightarrow> length (stripped (btoa s)) = (4 * length s + 2) div 3"
  by (induction s rule: btoa.induct)
     (simp_all add: stripped_btoa_1 stripped_btoa_2 stripped_btoa_3 stripped_Nil
        del: btoa.simps(2,3,4))

subsubsection \<open>Octets from sextets\<close>

text \<open>
  Three octets are determined by the four sextets of their group, so base64 without
  its padding is injective on plain strings.
\<close>

lemma digits_eq:
  fixes a b c d k :: nat
  assumes "a * k + b = c * k + d" "b < k" "d < k"
  shows "a = c \<and> b = d"
proof -
  have "(a * k + b) div k = a" "(c * k + d) div k = c"
    using assms(2,3) by simp_all
  with assms(1) have "a = c"
    by simp
  with assms(1) show ?thesis
    by simp
qed

lemma div_mod_eq:
  fixes x y k :: nat
  assumes "x div k = y div k" "x mod k = y mod k"
  shows "x = y"
  using assms by (metis div_mult_mod_eq)

lemma sextets_1:
  fixes x x' :: nat
  assumes "x div 4 = x' div 4" "x mod 4 * 16 = x' mod 4 * 16"
  shows "x = x'"
proof -
  from assms(2) have "x mod 4 = x' mod 4"
    by simp
  with assms(1) show ?thesis
    by (rule div_mod_eq)
qed

lemma sextets_2:
  fixes x x' y y' :: nat
  assumes "x div 4 = x' div 4" "x mod 4 * 16 + y div 16 = x' mod 4 * 16 + y' div 16"
    "y mod 16 * 4 = y' mod 16 * 4" "y < 256" "y' < 256"
  shows "x = x' \<and> y = y'"
proof -
  have "y div 16 < 16" "y' div 16 < 16"
    using assms(4,5) by simp_all
  from digits_eq [OF assms(2) this] have "x mod 4 = x' mod 4" "y div 16 = y' div 16"
    by simp_all
  moreover from assms(3) have "y mod 16 = y' mod 16"
    by simp
  ultimately show ?thesis
    using assms(1) by (auto intro: div_mod_eq)
qed

lemma sextets_3:
  fixes x x' y y' z z' :: nat
  assumes "x div 4 = x' div 4" "x mod 4 * 16 + y div 16 = x' mod 4 * 16 + y' div 16"
    "y mod 16 * 4 + z div 64 = y' mod 16 * 4 + z' div 64" "z mod 64 = z' mod 64"
    "y < 256" "y' < 256" "z < 256" "z' < 256"
  shows "x = x' \<and> y = y' \<and> z = z'"
proof -
  have "y div 16 < 16" "y' div 16 < 16"
    using assms(5,6) by simp_all
  from digits_eq [OF assms(2) this] have xy: "x mod 4 = x' mod 4" "y div 16 = y' div 16"
    by simp_all
  have "z div 64 < 4" "z' div 64 < 4"
    using assms(7,8) by simp_all
  from digits_eq [OF assms(3) this] have yz: "y mod 16 = y' mod 16" "z div 64 = z' div 64"
    by simp_all
  from xy yz assms(1,4) show ?thesis
    by (auto intro: div_mod_eq)
qed

lemma sextet_bounds:
  fixes x y :: nat
  assumes "x < 256" "y < 256"
  shows "x div 4 < 64" "x mod 4 * 16 + y div 16 < 64" "x mod 16 * 4 + y div 64 < 64"
    "x mod 64 < 64" "x mod 4 * 16 < 64" "x mod 16 * 4 < 64"
proof -
  have a: "x mod 4 < 4" "x mod 16 < 16" "y div 16 < 16" "y div 64 < 4"
    using assms by simp_all
  show "x div 4 < 64" using assms by simp
  show "x mod 4 * 16 + y div 16 < 64" using a(1,3) by linarith
  show "x mod 16 * 4 + y div 64 < 64" using a(2,4) by linarith
  show "x mod 64 < 64" by simp
  show "x mod 4 * 16 < 64" using a(1) by linarith
  show "x mod 16 * 4 < 64" using a(2) by linarith
qed

lemma of_char_lt_256: "(of_char c :: nat) < 256"
  by (cases c) (simp add: of_char_def horner_sum_eq_sum flip: of_nat_mult of_nat_add)

lemma b64_eqD: "b64 i = b64 j \<Longrightarrow> i < 64 \<Longrightarrow> j < 64 \<Longrightarrow> i = j"
  by (simp add: b64_inj)

lemmas char_sextet_bounds = sextet_bounds [OF of_char_lt_256 of_char_lt_256]

lemma stripped_btoa_length:
  assumes "list_all plain s" "list_all plain t" "stripped (btoa s) = stripped (btoa t)"
  shows "length s = length t"
proof -
  have "(4 * length s + 2) div 3 = (4 * length t + 2) div 3"
    using length_stripped_btoa [OF assms(1)] length_stripped_btoa [OF assms(2)] assms(3)
    by simp
  then show ?thesis
    by arith
qed

lemma group_1:
  assumes heads: "b64 (of_char a div 4) = b64 (of_char a' div 4)"
    "b64 (of_char a mod 4 * 16) = b64 (of_char a' mod 4 * 16)"
  shows "a = a'"
proof -
  have 1: "(of_char a :: nat) div 4 = of_char a' div 4"
    by (rule b64_eqD [OF heads(1)]) (rule char_sextet_bounds)+
  have 2: "(of_char a :: nat) mod 4 * 16 = of_char a' mod 4 * 16"
    by (rule b64_eqD [OF heads(2)]) (rule char_sextet_bounds)+
  have "(of_char a :: nat) = of_char a'"
    by (rule sextets_1 [OF 1 2])
  then show ?thesis
    by simp
qed

lemma group_2:
  assumes heads: "b64 (of_char a div 4) = b64 (of_char a' div 4)"
    "b64 (of_char a mod 4 * 16 + of_char b div 16) = b64 (of_char a' mod 4 * 16 + of_char b' div 16)"
    "b64 (of_char b mod 16 * 4) = b64 (of_char b' mod 16 * 4)"
  shows "a = a' \<and> b = b'"
proof -
  have 1: "(of_char a :: nat) div 4 = of_char a' div 4"
    by (rule b64_eqD [OF heads(1)]) (rule char_sextet_bounds)+
  have 2: "(of_char a :: nat) mod 4 * 16 + of_char b div 16 = of_char a' mod 4 * 16 + of_char b' div 16"
    by (rule b64_eqD [OF heads(2)]) (rule char_sextet_bounds)+
  have 3: "(of_char b :: nat) mod 16 * 4 = of_char b' mod 16 * 4"
    by (rule b64_eqD [OF heads(3)]) (rule char_sextet_bounds)+
  have "(of_char a :: nat) = of_char a' \<and> (of_char b :: nat) = of_char b'"
    by (rule sextets_2 [OF 1 2 3]) (rule of_char_lt_256)+
  then show ?thesis
    by simp
qed

lemma group_3:
  assumes heads: "b64 (of_char a div 4) = b64 (of_char a' div 4)"
    "b64 (of_char a mod 4 * 16 + of_char b div 16) = b64 (of_char a' mod 4 * 16 + of_char b' div 16)"
    "b64 (of_char b mod 16 * 4 + of_char c div 64) = b64 (of_char b' mod 16 * 4 + of_char c' div 64)"
    "b64 (of_char c mod 64) = b64 (of_char c' mod 64)"
  shows "a = a' \<and> b = b' \<and> c = c'"
proof -
  have 1: "(of_char a :: nat) div 4 = of_char a' div 4"
    by (rule b64_eqD [OF heads(1)]) (rule char_sextet_bounds)+
  have 2: "(of_char a :: nat) mod 4 * 16 + of_char b div 16 = of_char a' mod 4 * 16 + of_char b' div 16"
    by (rule b64_eqD [OF heads(2)]) (rule char_sextet_bounds)+
  have 3: "(of_char b :: nat) mod 16 * 4 + of_char c div 64 = of_char b' mod 16 * 4 + of_char c' div 64"
    by (rule b64_eqD [OF heads(3)]) (rule char_sextet_bounds)+
  have 4: "(of_char c :: nat) mod 64 = of_char c' mod 64"
    by (rule b64_eqD [OF heads(4)]) (rule char_sextet_bounds)+
  have "(of_char a :: nat) = of_char a' \<and> (of_char b :: nat) = of_char b' \<and> (of_char c :: nat) = of_char c'"
    by (rule sextets_3 [OF 1 2 3 4]) (rule of_char_lt_256)+
  then show ?thesis
    by simp
qed

lemma stripped_btoa_inj:
  "list_all plain s \<Longrightarrow> list_all plain t \<Longrightarrow> stripped (btoa s) = stripped (btoa t) \<Longrightarrow> s = t"
proof (induction s arbitrary: t rule: btoa.induct)
  case 1
  from stripped_btoa_length [OF "1.prems"] show ?case
    by simp
next
  case (2 a)
  from stripped_btoa_length [OF "2.prems"] have "length t = 1"
    by simp
  then obtain a' where t: "t = [a']"
    by (cases t) auto
  from "2.prems" have "plain a" "plain a'"
    by (simp_all add: t)
  with "2.prems"(3) have "b64 (of_char a div 4) = b64 (of_char a' div 4)"
    "b64 (of_char a mod 4 * 16) = b64 (of_char a' mod 4 * 16)"
    unfolding t by (simp_all only: stripped_btoa_1 list.inject)
  from group_1 [OF this] t show ?case
    by simp
next
  case (3 a b)
  from stripped_btoa_length [OF "3.prems"] have "length t = 2"
    by simp
  then obtain a' b' where t: "t = [a', b']"
    by (cases t; cases "tl t") auto
  from "3.prems" have "plain a" "plain b" "plain a'" "plain b'"
    by (simp_all add: t)
  with "3.prems"(3) have "b64 (of_char a div 4) = b64 (of_char a' div 4)"
    "b64 (of_char a mod 4 * 16 + of_char b div 16) = b64 (of_char a' mod 4 * 16 + of_char b' div 16)"
    "b64 (of_char b mod 16 * 4) = b64 (of_char b' mod 16 * 4)"
    unfolding t by (simp_all only: stripped_btoa_2 list.inject)
  from group_2 [OF this] t show ?case
    by simp
next
  case (4 a b c rest)
  from stripped_btoa_length [OF "4.prems"] have "length t = length (a # b # c # rest)"
    by simp
  then obtain a' b' c' rest' where t: "t = a' # b' # c' # rest'"
    by (cases t; cases "tl t"; cases "tl (tl t)") auto
  from "4.prems" have pl: "plain a" "plain b" "plain c" "plain a'" "plain b'" "plain c'"
    "list_all plain rest" "list_all plain rest'"
    by (simp_all add: t)
  from "4.prems"(3) have
    "[b64 (of_char a div 4), b64 (of_char a mod 4 * 16 + of_char b div 16),
      b64 (of_char b mod 16 * 4 + of_char c div 64), b64 (of_char c mod 64)] @
       stripped (btoa rest) =
     [b64 (of_char a' div 4), b64 (of_char a' mod 4 * 16 + of_char b' div 16),
      b64 (of_char b' mod 16 * 4 + of_char c' div 64), b64 (of_char c' mod 64)] @
       stripped (btoa rest')"
    unfolding t by (simp only: stripped_btoa_3 [OF pl(1-3)] stripped_btoa_3 [OF pl(4-6)])
  then have heads: "b64 (of_char a div 4) = b64 (of_char a' div 4)"
    "b64 (of_char a mod 4 * 16 + of_char b div 16) = b64 (of_char a' mod 4 * 16 + of_char b' div 16)"
    "b64 (of_char b mod 16 * 4 + of_char c div 64) = b64 (of_char b' mod 16 * 4 + of_char c' div 64)"
    "b64 (of_char c mod 64) = b64 (of_char c' mod 64)"
    and tails: "stripped (btoa rest) = stripped (btoa rest')"
    by simp_all
  have "rest = rest'"
    using pl(7,8) tails by (intro "4.IH" [OF refl refl refl])
  with group_3 [OF heads] t show ?case
    by simp
qed

subsubsection \<open>Percent escapes\<close>

lemma hexDigit_nth: "hexDigit d = hexChars ! d"
  by (simp add: hexDigit_def hexChars_def)

lemma hexDigit_inj: "i < 16 \<Longrightarrow> j < 16 \<Longrightarrow> hexDigit i = hexDigit j \<Longrightarrow> i = j"
proof -
  have "distinct hexChars" "length hexChars = 16"
    by (simp_all add: hexChars_def)
  then show "i < 16 \<Longrightarrow> j < 16 \<Longrightarrow> hexDigit i = hexDigit j \<Longrightarrow> i = j"
    by (simp add: hexDigit_nth nth_eq_iff_index_eq)
qed

lemma hexDigit_plain: "d < 16 \<Longrightarrow> plain (hexDigit d)"
proof -
  assume d: "d < 16"
  have "\<forall>c \<in> set hexChars. plain c"
    by (simp add: hexChars_def plain_def)
  moreover have "hexChars ! d \<in> set hexChars"
    using d by (intro nth_mem) (simp add: hexChars_def)
  ultimately show ?thesis
    by (simp add: hexDigit_nth)
qed

lemma percent_plain: "b < 256 \<Longrightarrow> list_all plain (percent b)"
proof -
  assume "b < 256"
  then have "b div 16 < 16" "b mod 16 < 16"
    by simp_all
  then show ?thesis
    by (simp add: percent_def hexDigit_plain) (simp add: plain_def)
qed

lemma percent_inj:
  assumes "b < 256" "b' < 256" "percent b @ r = percent b' @ r'"
  shows "b = b' \<and> r = r'"
proof -
  from assms(1,2) have bounds: "b div 16 < 16" "b' div 16 < 16" "b mod 16 < 16" "b' mod 16 < 16"
    by simp_all
  from assms(3) have "hexDigit (b div 16) = hexDigit (b' div 16)"
    "hexDigit (b mod 16) = hexDigit (b' mod 16)" and r: "r = r'"
    by (simp_all add: percent_def)
  then have "b div 16 = b' div 16" "b mod 16 = b' mod 16"
    using bounds by (auto intro: hexDigit_inj)
  then have "b = b'"
    by (rule div_mod_eq)
  with r show ?thesis
    by simp
qed

lemma concat_percent_inj:
  "length bs = length bs' \<Longrightarrow> \<forall>b \<in> set bs. b < 256 \<Longrightarrow> \<forall>b \<in> set bs'. b < 256 \<Longrightarrow>
     concat (map percent bs) @ r = concat (map percent bs') @ r' \<Longrightarrow> bs = bs' \<and> r = r'"
proof (induction bs bs' rule: list_induct2)
  case Nil
  then show ?case by simp
next
  case (Cons b bs b' bs')
  from Cons.prems have "percent b @ (concat (map percent bs) @ r) =
                        percent b' @ (concat (map percent bs') @ r')"
    by simp
  from percent_inj [OF _ _ this] Cons.prems(1,2)
  have "b = b'" and rest: "concat (map percent bs) @ r = concat (map percent bs') @ r'"
    by simp_all
  with Cons.IH [OF _ _ rest] Cons.prems(1,2) show ?case
    by simp
qed

subsubsection \<open>UTF-8\<close>

text \<open>
  The first octet of a sequence tells its length, and the sequence tells the code point.
\<close>

lemma utf8_bytes: "v < 0x110000 \<Longrightarrow> \<forall>b \<in> set (utf8 v). b < 256"
proof -
  assume v: "v < 0x110000"
  have m: "v mod 64 < 64" "v div 64 mod 64 < 64" "v div 4096 mod 64 < 64"
    by simp_all
  have "v < 0x800 \<Longrightarrow> v div 64 < 32" "v < 0x10000 \<Longrightarrow> v div 4096 < 16" "v div 262144 < 5"
    using v by simp_all
  with m show ?thesis
    by (auto simp: utf8_def)
qed

lemma utf8_shape:
  assumes "v < 0x110000"
  shows "\<exists>b bs. utf8 v = b # bs \<and> length (b # bs) = utf8Length b"
proof -
  have "v < 0x800 \<Longrightarrow> v div 64 < 32" "v < 0x10000 \<Longrightarrow> v div 4096 < 16" "v div 262144 < 5"
    using assms by simp_all
  then show ?thesis
    by (auto simp: utf8_def utf8Length_def)
qed

lemma div_4096: "(v::nat) div 4096 = v div 64 div 64"
  by (simp add: div_mult2_eq [symmetric])

lemma div_262144: "(v::nat) div 262144 = v div 64 div 64 div 64"
  by (simp add: div_mult2_eq [symmetric])

lemma utf8_length:
  "length (utf8 v) = (if v < 0x80 then 1 else if v < 0x800 then 2 else if v < 0x10000 then 3 else 4)"
  by (simp add: utf8_def)

lemma utf8_inj:
  assumes "v < 0x110000" "w < 0x110000" "utf8 v = utf8 w"
  shows "v = w"
proof -
  from assms(3) have "length (utf8 v) = length (utf8 w)"
    by simp
  then have len: "(if v < 0x80 then 1 else if v < 0x800 then 2 else if v < 0x10000 then 3 else 4) =
     (if w < 0x80 then 1 else if w < 0x800 then 2 else if w < 0x10000 then 3 else (4::nat))"
    by (simp only: utf8_length)
  consider (one) "v < 0x80" | (two) "0x80 \<le> v" "v < 0x800" | (three) "0x800 \<le> v" "v < 0x10000"
    | (four) "0x10000 \<le> v"
    by linarith
  then show ?thesis
  proof cases
    case one
    with len have "w < 0x80"
      by (simp split: if_splits)
    with one assms(3) show ?thesis
      by (simp add: utf8_def)
  next
    case two
    with len have "0x80 \<le> w" "w < 0x800"
      by (simp_all split: if_splits)
    with two assms(3) have "v div 64 = w div 64" "v mod 64 = w mod 64"
      by (simp_all add: utf8_def)
    then show ?thesis
      by (rule div_mod_eq)
  next
    case three
    with len have "0x800 \<le> w" "w < 0x10000"
      by (simp_all split: if_splits)
    with three assms(3)
    have "v div 4096 = w div 4096" "v div 64 mod 64 = w div 64 mod 64" "v mod 64 = w mod 64"
      by (simp_all add: utf8_def)
    then have a: "v div 64 div 64 = w div 64 div 64" "v div 64 mod 64 = w div 64 mod 64"
      and b: "v mod 64 = w mod 64"
      by (simp_all only: div_4096)
    from a have "v div 64 = w div 64"
      by (rule div_mod_eq)
    then show ?thesis
      using b by (rule div_mod_eq)
  next
    case four
    with len have "0x10000 \<le> w"
      by (simp split: if_splits)
    with four assms(3)
    have "v div 262144 = w div 262144" "v div 4096 mod 64 = w div 4096 mod 64"
      and b: "v div 64 mod 64 = w div 64 mod 64" and c: "v mod 64 = w mod 64"
      by (simp_all add: utf8_def)
    then have a: "v div 64 div 64 div 64 = w div 64 div 64 div 64"
      "v div 64 div 64 mod 64 = w div 64 div 64 mod 64"
      by (simp_all only: div_4096 div_262144)
    from a have "v div 64 div 64 = w div 64 div 64"
      by (rule div_mod_eq)
    then have "v div 64 = w div 64"
      using b by (rule div_mod_eq)
    then show ?thesis
      using c by (rule div_mod_eq)
  qed
qed

lemma escape_inj:
  assumes "v < 0x110000" "w < 0x110000" "escape v @ r = escape w @ r'"
  shows "v = w \<and> r = r'"
proof -
  from utf8_shape [OF assms(1)] obtain b bs
    where v: "utf8 v = b # bs" "length (b # bs) = utf8Length b"
    by blast
  from utf8_shape [OF assms(2)] obtain b' bs'
    where w: "utf8 w = b' # bs'" "length (b' # bs') = utf8Length b'"
    by blast
  have bytes: "\<forall>x \<in> set (b # bs). x < 256" "\<forall>x \<in> set (b' # bs'). x < 256"
    using utf8_bytes [OF assms(1)] utf8_bytes [OF assms(2)] v(1) w(1) by simp_all
  from assms(3) have eq: "concat (map percent (b # bs)) @ r = concat (map percent (b' # bs')) @ r'"
    by (simp add: escape_def v(1) w(1))
  then have "percent b @ (concat (map percent bs) @ r) = percent b' @ (concat (map percent bs') @ r')"
    by simp
  from percent_inj [OF _ _ this] bytes have "b = b'"
    by simp
  with v(2) w(2) have "length (b # bs) = length (b' # bs')"
    by simp
  from concat_percent_inj [OF this bytes eq] have "utf8 v = utf8 w" "r = r'"
    by (simp_all add: v(1) w(1))
  with utf8_inj [OF assms(1,2)] show ?thesis
    by simp
qed

lemma escape_head: "v < 0x110000 \<Longrightarrow> \<exists>rest. escape v = CHR ''%'' # rest"
proof -
  assume "v < 0x110000"
  from utf8_shape [OF this] obtain b bs where "utf8 v = b # bs"
    by blast
  then show ?thesis
    by (simp add: escape_def percent_def)
qed

lemma escape_plain: "v < 0x110000 \<Longrightarrow> list_all plain (escape v)"
  using utf8_bytes [of v]
  by (simp add: escape_def list_all_iff) (metis percent_plain list_all_iff)

subsubsection \<open>What \<open>encodeUnits\<close> writes\<close>

text \<open>
  The output starts with the copy of an unreserved unit or with the escape of one code
  point; either way the first unit (or surrogate pair) can be read back from it.
\<close>

lemma surrogate_pair_bound:
  fixes c d :: nat
  assumes "0xD800 \<le> c" "c \<le> 0xDBFF" "0xDC00 \<le> d" "d \<le> 0xDFFF"
  shows "0x10000 \<le> (c - 0xD800) * 0x400 + (d - 0xDC00) + 0x10000"
    and "(c - 0xD800) * 0x400 + (d - 0xDC00) + 0x10000 < 0x110000"
proof -
  from assms have "c - 0xD800 \<le> 0x3FF" "d - 0xDC00 \<le> 0x3FF"
    by simp_all
  then have "(c - 0xD800) * 0x400 \<le> 0x3FF * 0x400"
    by simp
  with \<open>d - 0xDC00 \<le> 0x3FF\<close>
  show "(c - 0xD800) * 0x400 + (d - 0xDC00) + 0x10000 < 0x110000"
    by linarith
  show "0x10000 \<le> (c - 0xD800) * 0x400 + (d - 0xDC00) + 0x10000"
    by simp
qed

lemma surrogate_pair_inj:
  fixes c d c' d' :: nat
  assumes "0xD800 \<le> c" "0xDC00 \<le> d" "d \<le> 0xDFFF" "0xD800 \<le> c'" "0xDC00 \<le> d'" "d' \<le> 0xDFFF"
    and "(c - 0xD800) * 0x400 + (d - 0xDC00) + 0x10000 = (c' - 0xD800) * 0x400 + (d' - 0xDC00) + 0x10000"
  shows "c = c' \<and> d = d'"
proof -
  from assms(7) have "(c - 0xD800) * 0x400 + (d - 0xDC00) = (c' - 0xD800) * 0x400 + (d' - 0xDC00)"
    by simp
  moreover have "d - 0xDC00 < 0x400" "d' - 0xDC00 < 0x400"
    using assms(2,3,5,6) by simp_all
  ultimately have "c - 0xD800 = c' - 0xD800 \<and> d - 0xDC00 = d' - 0xDC00"
    by (rule digits_eq)
  with assms(1,2,4,5) show ?thesis
    by linarith
qed

lemma encodeUnits_Cons:
  assumes "encodeUnits (c # cs) = Inr r" and "c < 0x10000"
  obtains (unreserved) r1 where "uriUnreserved c" "encodeUnits cs = Inr r1" "r = char_of c # r1"
  | (single) r1 where "\<not> uriUnreserved c" "c < 0xD800 \<or> 0xDFFF < c" "encodeUnits cs = Inr r1"
      "r = escape c @ r1"
  | (pair) d ds r1 where "\<not> uriUnreserved c" "0xD800 \<le> c" "c \<le> 0xDBFF" "cs = d # ds"
      "0xDC00 \<le> d" "d \<le> 0xDFFF" "encodeUnits ds = Inr r1"
      "r = escape ((c - 0xD800) * 0x400 + (d - 0xDC00) + 0x10000) @ r1"
proof (cases "uriUnreserved c")
  case True
  with assms(1) show ?thesis
    by (auto intro: unreserved split: sum.splits)
next
  case False
  show ?thesis
  proof (cases "c < 0xD800 \<or> 0xDFFF < c")
    case True
    with False assms(1) show ?thesis
      by (auto intro!: single split: sum.splits if_splits)
  next
    case range: False
    show ?thesis
    proof (cases "0xDC00 \<le> c")
      case True
      with range False assms(1) show ?thesis
        by simp
    next
      case low: False
      with range False assms(1) obtain d ds where cs: "cs = d # ds"
        by (cases cs) auto
      with low range False assms(1) show ?thesis
        by (auto intro!: pair split: sum.splits if_splits)
    qed
  qed
qed

lemma unreserved_lt_128: "uriUnreserved c \<Longrightarrow> c < 128"
  by (auto simp: uriUnreserved_def)

lemma unreserved_char_inj:
  assumes "uriUnreserved c" "uriUnreserved c'" "(char_of c :: char) = char_of c'"
  shows "c = c'"
proof -
  from assms(3) have "(of_char (char_of c :: char) :: nat) = of_char (char_of c' :: char)"
    by simp
  then have "c mod 256 = c' mod 256"
    by simp
  with unreserved_lt_128 [OF assms(1)] unreserved_lt_128 [OF assms(2)] show ?thesis
    by simp
qed

lemma unreserved_not_percent:
  assumes "uriUnreserved c"
  shows "(char_of c :: char) \<noteq> CHR ''%''"
proof
  assume "(char_of c :: char) = CHR ''%''"
  then have "(of_char (char_of c :: char) :: nat) = of_char CHR ''%''"
    by simp
  then have "c mod 256 = 37"
    by simp
  with unreserved_lt_128 [OF assms] have "c = 37"
    by simp
  with assms show False
    by (simp add: uriUnreserved_def)
qed

lemma escapes_inj:
  assumes "escapes c cs v rest" "escapes c' cs' v rest"
  shows "c # cs = c' # cs'"
proof (cases "v < 0x10000")
  case True
  with assms show ?thesis
    by (auto simp: escapes_def)
next
  case False
  with assms(1)
  have "\<exists>d. cs = d # rest \<and> 0xD800 \<le> c \<and> 0xDC00 \<le> d \<and> d \<le> 0xDFFF \<and>
          v = (c - 0xD800) * 0x400 + (d - 0xDC00) + 0x10000"
    by (simp add: escapes_def)
  then obtain d where
    one: "cs = d # rest" "0xD800 \<le> c" "0xDC00 \<le> d" "d \<le> 0xDFFF"
      "v = (c - 0xD800) * 0x400 + (d - 0xDC00) + 0x10000"
    by blast
  from False assms(2)
  have "\<exists>d. cs' = d # rest \<and> 0xD800 \<le> c' \<and> 0xDC00 \<le> d \<and> d \<le> 0xDFFF \<and>
          v = (c' - 0xD800) * 0x400 + (d - 0xDC00) + 0x10000"
    by (simp add: escapes_def)
  then obtain d' where
    two: "cs' = d' # rest" "0xD800 \<le> c'" "0xDC00 \<le> d'" "d' \<le> 0xDFFF"
      "v = (c' - 0xD800) * 0x400 + (d' - 0xDC00) + 0x10000"
    by blast
  from one(5) two(5)
  have "(c - 0xD800) * 0x400 + (d - 0xDC00) + 0x10000 = (c' - 0xD800) * 0x400 + (d' - 0xDC00) + 0x10000"
    by (rule subst)
  from surrogate_pair_inj [OF one(2-4) two(2-4) this] one(1) two(1) show ?thesis
    by simp
qed

lemma encodeUnits_first:
  assumes "encodeUnits (c # cs) = Inr r" and "c < 0x10000"
  obtains (unreserved) r1 where "uriUnreserved c" "encodeUnits cs = Inr r1" "r = char_of c # r1"
  | (escaped) v rest r1 where "\<not> uriUnreserved c" "escapes c cs v rest" "v < 0x110000"
      "encodeUnits rest = Inr r1" "r = escape v @ r1" "length rest \<le> length cs"
      "set rest \<subseteq> set cs"
using assms
proof (cases rule: encodeUnits_Cons)
  case (unreserved r1)
  then show ?thesis
    by (rule that(1))
next
  case (single r1)
  with assms(2) show ?thesis
    by (intro that(2) [of c cs r1]) (simp_all add: escapes_def)
next
  case (pair d ds r1)
  from surrogate_pair_bound [OF pair(2,3,5,6)] pair show ?thesis
    by (intro that(2) [of "(c - 0xD800) * 0x400 + (d - 0xDC00) + 0x10000" ds r1])
       (auto simp: escapes_def)
qed

lemma encodeUnits_nonempty:
  assumes "encodeUnits (c # cs) = Inr r" "c < 0x10000"
  shows "r \<noteq> []"
  using assms
proof (cases rule: encodeUnits_first)
  case (unreserved r1)
  then show ?thesis by simp
next
  case (escaped v rest r1)
  with escape_head [OF escaped(3)] show ?thesis
    by auto
qed

lemma encodeUnits_inj:
  "encodeUnits xs = Inr r \<Longrightarrow> encodeUnits ys = Inr r \<Longrightarrow>
   \<forall>c \<in> set xs. c < 0x10000 \<Longrightarrow> \<forall>c \<in> set ys. c < 0x10000 \<Longrightarrow> xs = ys"
proof (induction "length xs" arbitrary: xs ys r rule: less_induct)
  case less
  show ?case
  proof (cases xs)
    case Nil
    with less.prems(1) have r: "r = []"
      by simp
    show ?thesis
    proof (cases ys)
      case Nil
      with \<open>xs = []\<close> show ?thesis by simp
    next
      case (Cons c' cs')
      with less.prems(2,4) encodeUnits_nonempty [of c' cs' r] r show ?thesis
        by simp
    qed
  next
    case (Cons c cs)
    with less.prems(1,3) have xs_enc: "encodeUnits (c # cs) = Inr r" and c: "c < 0x10000"
      and cs: "\<forall>x \<in> set cs. x < 0x10000"
      by simp_all
    from encodeUnits_nonempty [OF xs_enc c] have "r \<noteq> []" .
    with less.prems(2) obtain c' cs' where ys: "ys = c' # cs'"
      by (cases ys) auto
    with less.prems(2,4) have ys_enc: "encodeUnits (c' # cs') = Inr r" and c': "c' < 0x10000"
      and cs': "\<forall>x \<in> set cs'. x < 0x10000"
      by simp_all
    from xs_enc c show ?thesis
    proof (cases rule: encodeUnits_first)
      case x: (unreserved r1)
      from ys_enc c' show ?thesis
      proof (cases rule: encodeUnits_first)
        case y: (unreserved r1')
        from x(3) y(3) have "(char_of c :: char) = char_of c'" and tails: "r1' = r1"
          by simp_all
        from unreserved_char_inj [OF x(1) y(1) this(1)] have "c = c'" .
        moreover have "cs = cs'"
          using less.hyps [of cs r1 cs'] x(2) y(2) tails cs cs' Cons by simp
        ultimately show ?thesis
          using Cons ys by simp
      next
        case y: (escaped v' rest' r1')
        from escape_head [OF y(3)] y(5) x(3) have "(char_of c :: char) = CHR ''%''"
          by auto
        with unreserved_not_percent [OF x(1)] show ?thesis
          by simp
      qed
    next
      case x: (escaped v rest r1)
      from ys_enc c' show ?thesis
      proof (cases rule: encodeUnits_first)
        case y: (unreserved r1')
        from escape_head [OF x(3)] x(5) y(3) have "(char_of c' :: char) = CHR ''%''"
          by auto
        with unreserved_not_percent [OF y(1)] show ?thesis
          by simp
      next
        case y: (escaped v' rest' r1')
        from x(5) y(5) have "escape v @ r1 = escape v' @ r1'"
          by simp
        from escape_inj [OF x(3) y(3) this] have v: "v' = v" and tails: "r1' = r1"
          by simp_all
        have "rest = rest'"
        proof (rule less.hyps [of rest r1 rest'])
          show "length rest < length xs"
            using x(6) Cons by simp
          show "encodeUnits rest = Inr r1"
            by (rule x(4))
          show "encodeUnits rest' = Inr r1"
            using y(4) tails by simp
          show "\<forall>c \<in> set rest. c < 0x10000"
            using x(7) cs by blast
          show "\<forall>c \<in> set rest'. c < 0x10000"
            using y(7) cs' by blast
        qed
        with x(2) y(2) v have "escapes c cs v rest" "escapes c' cs' v rest"
          by simp_all
        from escapes_inj [OF this] Cons ys show ?thesis
          by simp
      qed
    qed
  qed
qed

lemma unreserved_plain:
  assumes "uriUnreserved c" "c \<noteq> 126"
  shows "plain (char_of c)"
proof -
  have "c < 128"
    using assms(1) by (rule unreserved_lt_128)
  then have "(of_char (char_of c :: char) :: nat) = c"
    by simp
  moreover have "c mod 64 < 62"
  proof (cases "c < 64")
    case True
    with assms(1) show ?thesis
      by (auto simp: uriUnreserved_def)
  next
    case False
    with \<open>c < 128\<close> have "c mod 64 = c - 64"
      by (simp add: mod_if)
    with assms \<open>c < 128\<close> False show ?thesis
      by (auto simp: uriUnreserved_def)
  qed
  ultimately show ?thesis
    using \<open>c < 128\<close> by (simp add: plain_def)
qed

lemma encodeUnits_plain:
  "encodeUnits cs = Inr r \<Longrightarrow> \<forall>c \<in> set cs. c < 0x10000 \<Longrightarrow> 126 \<notin> set cs \<Longrightarrow> list_all plain r"
proof (induction "length cs" arbitrary: cs r rule: less_induct)
  case less
  show ?case
  proof (cases cs)
    case Nil
    with less.prems(1) show ?thesis
      by simp
  next
    case (Cons c cs')
    with less.prems have enc: "encodeUnits (c # cs') = Inr r" and c: "c < 0x10000" "c \<noteq> 126"
      and rest: "\<forall>x \<in> set cs'. x < 0x10000" "126 \<notin> set cs'"
      by auto
    from enc c(1) show ?thesis
    proof (cases rule: encodeUnits_first)
      case (unreserved r1)
      from less.hyps [of cs' r1] unreserved(2) rest Cons have "list_all plain r1"
        by simp
      with unreserved_plain [OF unreserved(1) c(2)] unreserved(3) show ?thesis
        by simp
    next
      case (escaped v rest' r1)
      have "list_all plain r1"
      proof (rule less.hyps [of rest' r1])
        show "length rest' < length cs"
          using escaped(6) Cons by simp
        show "encodeUnits rest' = Inr r1"
          by (rule escaped(4))
        show "\<forall>c \<in> set rest'. c < 0x10000"
          using escaped(7) rest(1) by blast
        show "126 \<notin> set rest'"
          using escaped(7) rest(2) by blast
      qed
      with escape_plain [OF escaped(3)] escaped(5) show ?thesis
        by simp
    qed
  qed
qed

lemma btoa_chars: "set (btoa s) \<subseteq> insert CHR ''='' (b64 ` {..<64})"
proof (induction s rule: btoa.induct)
  case 1
  then show ?case by simp
next
  case (2 a)
  have "(of_char a :: nat) div 4 < 64" "(of_char a :: nat) mod 4 * 16 < 64"
    by (rule char_sextet_bounds)+
  then show ?case
    by (simp add: Let_def)
next
  case (3 a b)
  have "(of_char a :: nat) div 4 < 64" "(of_char a :: nat) mod 4 * 16 + of_char b div 16 < 64"
    "(of_char b :: nat) mod 16 * 4 < 64"
    by (rule char_sextet_bounds)+
  then show ?case
    by (simp add: Let_def)
next
  case (4 a b c rest)
  have "(of_char a :: nat) div 4 < 64" "(of_char a :: nat) mod 4 * 16 + of_char b div 16 < 64"
    "(of_char b :: nat) mod 16 * 4 + of_char c div 64 < 64" "(of_char c :: nat) mod 64 < 64"
    by (rule char_sextet_bounds)+
  with "4.IH" [OF refl refl refl] show ?case
    by (simp add: Let_def)
qed

lemma stripped_btoa_alnum:
  assumes "c \<in> set (stripped (btoa s))"
  shows "alphanumeric (of_char c)"
proof -
  from assms have mem: "c \<in> set (btoa s)" and kept: "c \<notin> {CHR ''+'', CHR ''/'', CHR ''=''}"
    by (simp_all add: stripped_def)
  with btoa_chars [of s] obtain n where n: "n < 64" "c = b64 n"
    by auto
  have "n < 62"
  proof (rule ccontr)
    assume "\<not> n < 62"
    with n(1) have "n = 62 \<or> n = 63"
      by linarith
    with n(2) kept show False
      by (auto simp: b64_def)
  qed
  with n(2) show ?thesis
    by (simp add: b64_alnum)
qed

subsubsection \<open>The identity function\<close>

lemma of_char_lt_65536: "(of_char c :: nat) < 2 ^ 16"
proof -
  have "(256::nat) < 2 ^ 16"
    by simp
  with of_char_lt_256 [of c] show ?thesis
    by (rule less_trans)
qed

lemma unat_of_char: "unat (of_nat (of_char c) :: 16 word) = of_char c"
proof -
  have "(of_char c :: nat) < 2 ^ LENGTH(16)"
    using of_char_lt_65536 [of c] by simp
  then show ?thesis
    by (simp only: unat_of_nat mod_less)
qed

lemma ascii_inj: "ascii s = ascii t \<Longrightarrow> s = t"
proof -
  have "inj (\<lambda>c :: char. of_nat (of_char c) :: 16 word)"
  proof (rule injI)
    fix c d :: char
    assume "(of_nat (of_char c) :: 16 word) = of_nat (of_char d)"
    then have "unat (of_nat (of_char c) :: 16 word) = unat (of_nat (of_char d) :: 16 word)"
      by simp
    then have "(of_char c :: nat) = of_char d"
      by (simp only: unat_of_char)
    then show "c = d"
      by simp
  qed
  then have "inj (map (\<lambda>c :: char. of_nat (of_char c) :: 16 word))"
    by simp
  then show "ascii s = ascii t \<Longrightarrow> s = t"
    unfolding ascii_def by (rule injD)
qed

lemma unat_units: "\<forall>c \<in> set (map unat (p :: jsstring)). c < 0x10000"
proof
  fix c assume "c \<in> set (map unat p)"
  then obtain u :: "16 word" where "c = unat u"
    by auto
  moreover have "unat u < 2 ^ 16"
    using unsigned_less [of u] by simp
  ultimately show "c < 0x10000"
    by simp
qed

lemma unat_tilde: "tilde \<notin> set p \<Longrightarrow> 126 \<notin> set (map unat p)"
proof
  assume "tilde \<notin> set p" "126 \<in> set (map unat p)"
  then obtain u :: "16 word" where u: "u \<in> set p" "unat u = 126"
    by auto
  then have "unat u = unat (126 :: 16 word)"
    by simp
  then have "u = 126"
    by (simp only: word_unat_eq_iff)
  with u(1) \<open>tilde \<notin> set p\<close> show False
    by (simp add: tilde_def)
qed

lemma generateNodeId_Inr:
  "generateNodeId p = Inr i \<Longrightarrow>
     \<exists>e. encodeUnits (map unat p) = Inr e \<and> i = ascii (stripped (btoa e))"
  by (cases "encodeUnits (map unat p)")
     (simp_all add: generateNodeId_def encodeURIComponent_def)

lemma generateNodeId_alnum:
  assumes "generateNodeId p = Inr i" "u \<in> set i"
  shows "alphanumeric (unat u)"
proof -
  from generateNodeId_Inr [OF assms(1)] obtain e where i: "i = ascii (stripped (btoa e))"
    by blast
  with assms(2) obtain c where c: "c \<in> set (stripped (btoa e))" "u = of_nat (of_char c)"
    by (auto simp: ascii_def)
  have "unat u = of_char c"
    unfolding c(2) by (rule unat_of_char)
  with stripped_btoa_alnum [OF c(1)] show ?thesis
    by simp
qed

lemma generateNodeId_inj:
  assumes "generateNodeId p = Inr i" "generateNodeId q = Inr i" "tilde \<notin> set p" "tilde \<notin> set q"
  shows "p = q"
proof -
  from generateNodeId_Inr [OF assms(1)] obtain e1
    where e1: "encodeUnits (map unat p) = Inr e1" "i = ascii (stripped (btoa e1))"
    by blast
  from generateNodeId_Inr [OF assms(2)] obtain e2
    where e2: "encodeUnits (map unat q) = Inr e2" "i = ascii (stripped (btoa e2))"
    by blast
  from e1(2) e2(2) have "ascii (stripped (btoa e1)) = ascii (stripped (btoa e2))"
    by simp
  then have same: "stripped (btoa e1) = stripped (btoa e2)"
    by (rule ascii_inj)
  have "list_all plain e1"
    by (rule encodeUnits_plain [OF e1(1) unat_units unat_tilde [OF assms(3)]])
  moreover have "list_all plain e2"
    by (rule encodeUnits_plain [OF e2(1) unat_units unat_tilde [OF assms(4)]])
  ultimately have "e1 = e2"
    using same by (rule stripped_btoa_inj)
  with e2(1) have "encodeUnits (map unat q) = Inr e1"
    by simp
  from encodeUnits_inj [OF e1(1) this unat_units unat_units] have "map unat p = map unat q" .
  then show "p = q"
    by (simp add: inj_map_eq_map)
qed

text \<open>
  C3, as stated, at a concrete input. \<open>~\<close> is not escaped by \<open>encodeURIComponent\<close>; as the
  third octet of a base64 group it yields \<open>+\<close>, which the identity function deletes. The
  paths \<open>/tmp/ab~aad\<close> and \<open>/tmp/abXXY\<close> are different and get the same id.
\<close>

theorem generateNodeId_collision:
  "ascii ''/tmp/ab~aad'' \<noteq> ascii ''/tmp/abXXY'' \<and>
   generateNodeId (ascii ''/tmp/ab~aad'') = Inr (ascii ''JTJGdG1wJTJGYWJYWFk'') \<and>
   generateNodeId (ascii ''/tmp/abXXY'') = Inr (ascii ''JTJGdG1wJTJGYWJYWFk'')"
  by (simp add: generateNodeId_def encodeURIComponent_def uriUnreserved_def ascii_def
        escape_def utf8_def percent_def hexDigit_def b64_def stripped_def)

text \<open>
  C3, amended. The identity function is a function of the path alone (it reads nothing
  else); every id it produces consists of ASCII letters and digits only, so it holds no
  path separator and no control character; and it is injective on the paths that contain
  no \<open>~\<close>: two such paths with the same id are equal.
\<close>

theorem generateNodeId_safe_injective:
  "(generateNodeId p = Inr i \<longrightarrow> (\<forall>u \<in> set i. alphanumeric (unat u))) \<and>
   (generateNodeId p = Inr i \<and> generateNodeId q = Inr i \<and> tilde \<notin> set p \<and> tilde \<notin> set q
      \<longrightarrow> p = q)"
  using generateNodeId_alnum [of p i] generateNodeId_inj [of p i q] by blast

theorem generateNodeId_safe_injective_witness:
  "generateNodeId (ascii ''/p/a.txt'') = Inr (ascii ''JTJGcCUyRmEudHh0'') \<and>
   tilde \<notin> set (ascii ''/p/a.txt'') \<and>
   list_all (\<lambda>u. alphanumeric (unat u)) (ascii ''JTJGcCUyRmEudHh0'') \<and>
   generateNodeId (ascii ''/p/a.txt'') \<noteq> generateNodeId (ascii ''/p/b.txt'')"
proof -
  have gen: "generateNodeId (ascii ''/p/a.txt'') = Inr (ascii ''JTJGcCUyRmEudHh0'')"
    by (simp add: generateNodeId_def encodeURIComponent_def uriUnreserved_def ascii_def
          escape_def utf8_def percent_def hexDigit_def b64_def stripped_def)
  have no_tilde: "tilde \<notin> set (ascii ''/p/a.txt'')" "tilde \<notin> set (ascii ''/p/b.txt'')"
    by (simp_all add: ascii_def tilde_def)
  have different: "ascii ''/p/a.txt'' \<noteq> ascii ''/p/b.txt''"
    by (simp add: ascii_def)
  note at_a =
    generateNodeId_safe_injective
      [of "ascii ''/p/a.txt''" "ascii ''JTJGcCUyRmEudHh0''" "ascii ''/p/b.txt''"]
  from at_a gen have "list_all (\<lambda>u. alphanumeric (unat u)) (ascii ''JTJGcCUyRmEudHh0'')"
    unfolding list_all_iff by blast
  moreover from at_a gen no_tilde different
  have "generateNodeId (ascii ''/p/a.txt'') \<noteq> generateNodeId (ascii ''/p/b.txt'')"
    by metis
  ultimately show ?thesis
    using gen no_tilde by simp
qed

subsection \<open>Cascading delete\<close>

text \<open>
  What \<open>removeNode\<close> does for every store: when it returns, the id is out of the table
  and out of the selected, expanded and loading lists, and the path of a removed depth-0
  node is out of the root paths.
\<close>

lemma deleteChildren_removes:
  "deleteChildren stack i t = Some t' \<Longrightarrow> t' i = None"
  by (cases stack) (auto split: option.splits)

lemma removeNode_purges:
  assumes "removeNode stack i s = Inr s'"
  shows "nodes s' i = None \<and> i \<notin> set (selectedNodes s') \<and> i \<notin> set (expandedNodes s') \<and>
         i \<notin> set (loadingNodes s') \<and>
         (\<forall>n. nodes s i = Some n \<and> depth n = 0 \<longrightarrow> path n \<notin> set (rootPaths s'))"
proof (cases "nodes s i")
  case None
  with assms show ?thesis by (auto simp: removeNode_def)
next
  case (Some n)
  with assms obtain t where t: "deleteChildren stack i (nodes s) = Some t"
    by (cases "deleteChildren stack i (nodes s)") (simp_all add: removeNode_def)
  with assms Some deleteChildren_removes [OF t] show ?thesis
    by (auto simp: removeNode_def)
qed

text \<open>
  C1. \<open>removeNode\<close> follows the \<open>children\<close> arrays of table entries, not the \<open>parent\<close>
  references. On the test file's nodes, where \<open>file1\<close> has parent \<open>src\<close> and \<open>src\<close> has
  an empty \<open>children\<close> array, \<open>removeNode('src')\<close> removes \<open>src\<close> and leaves \<open>file1\<close> in the
  table. The test expects \<open>file1\<close> to be gone.
\<close>

theorem removeNode_leaves_descendant:
  "parent mockFile1 = Some (id' mockSrc) \<and>
   nodes mockStore (id' mockSrc) = Some mockSrc \<and>
   (\<exists>s'. removeNode (Suc stack) (id' mockSrc) mockStore = Inr s' \<and>
         nodes s' (id' mockSrc) = None \<and>
         nodes s' (id' mockFile1) = Some mockFile1)"
  by (simp add: removeNode_def setNodes_def initialState_def mockStore_def mockNodes_def
        mockRoot_def mockSrc_def mockFile1_def ascii_simps)

subsection \<open>Sorting keeps directories first\<close>

text \<open>
  In ascending order the comparator puts every directory before every file, whatever the
  sort key and the two collations are.
\<close>

lemma set_insertBy: "set (insertBy cmp x xs) = insert x (set xs)"
  by (induction xs) auto

lemma compareNodes_asc_le:
  "compareNodes lcName lcExt by Asc x y \<le> 0 \<Longrightarrow> type' x = File \<Longrightarrow> type' y = File"
  by (cases "type' y") (simp_all add: compareNodes_def)

lemma compareNodes_asc_gt:
  "\<not> compareNodes lcName lcExt by Asc x y \<le> 0 \<Longrightarrow> type' y = File \<Longrightarrow> type' x = File"
  by (cases "type' x") (simp_all add: compareNodes_def)

lemma directoriesFirst_Cons:
  "(type' x = File \<Longrightarrow> \<forall>y \<in> set xs. type' y = File) \<Longrightarrow> directoriesFirst xs
     \<Longrightarrow> directoriesFirst (x # xs)"
  by (simp only: directoriesFirst.simps) blast

lemma directoriesFirst_tail:
  "directoriesFirst (x # xs) \<Longrightarrow> directoriesFirst xs"
  by (simp only: directoriesFirst.simps)

lemma directoriesFirst_head:
  "directoriesFirst (x # xs) \<Longrightarrow> type' x = File \<Longrightarrow> y \<in> set xs \<Longrightarrow> type' y = File"
  by (simp only: directoriesFirst.simps)

lemma insertBy_directoriesFirst:
  "directoriesFirst xs \<Longrightarrow>
     directoriesFirst (insertBy (compareNodes lcName lcExt by Asc) x xs)"
proof (induction xs)
  case Nil
  show ?case by simp
next
  case (Cons y ys)
  let ?cmp = "compareNodes lcName lcExt by Asc"
  show ?case
  proof (cases "?cmp x y \<le> 0")
    case True
    have "directoriesFirst (x # y # ys)"
    proof (rule directoriesFirst_Cons)
      assume "type' x = File"
      then have f: "type' y = File"
        by (rule compareNodes_asc_le [OF True])
      show "\<forall>z \<in> set (y # ys). type' z = File"
      proof
        fix z assume "z \<in> set (y # ys)"
        then consider "z = y" | "z \<in> set ys"
          by auto
        then show "type' z = File"
        proof cases
          case 1
          with f show ?thesis by (simp only:)
        next
          case 2
          with Cons.prems f show ?thesis by (rule directoriesFirst_head)
        qed
      qed
    next
      show "directoriesFirst (y # ys)"
        by (rule Cons.prems)
    qed
    moreover have "insertBy ?cmp x (y # ys) = x # y # ys"
      using True by (simp only: insertBy.simps if_True)
    ultimately show ?thesis
      by (simp only:)
  next
    case False
    have "directoriesFirst (y # insertBy ?cmp x ys)"
    proof (rule directoriesFirst_Cons)
      assume f: "type' y = File"
      then have g: "type' x = File"
        by (rule compareNodes_asc_gt [OF False])
      show "\<forall>z \<in> set (insertBy ?cmp x ys). type' z = File"
      proof
        fix z assume "z \<in> set (insertBy ?cmp x ys)"
        then consider "z = x" | "z \<in> set ys"
          unfolding set_insertBy by blast
        then show "type' z = File"
        proof cases
          case 1
          with g show ?thesis by (simp only:)
        next
          case 2
          with Cons.prems f show ?thesis by (rule directoriesFirst_head)
        qed
      qed
    next
      from Cons.prems have "directoriesFirst ys"
        by (rule directoriesFirst_tail)
      then show "directoriesFirst (insertBy ?cmp x ys)"
        by (rule Cons.IH)
    qed
    moreover have "insertBy ?cmp x (y # ys) = y # insertBy ?cmp x ys"
      using False by (simp only: insertBy.simps if_False)
    ultimately show ?thesis
      by (simp only:)
  qed
qed

lemma sortNodesByConfig_asc_directoriesFirst:
  "directoriesFirst (sortNodesByConfig lcName lcExt ns by Asc)"
  unfolding sortNodesByConfig_def arraySort_def
  by (induction ns) (simp_all add: insertBy_directoriesFirst)

text \<open>
  C2. The comparator negates the whole comparison for \<open>desc\<close>, the directory-before-file
  result included. Sorting the siblings \<open>[z, a, b]\<close> by size, descending, puts the
  directory \<open>z\<close> last: \<open>[b, a, z]\<close>; the claim asks for \<open>[z, b, a]\<close>.
\<close>

theorem sortNodes_desc_files_first:
  "type' dirZ = Directory \<and> type' fileA = File \<and> type' fileB = File \<and>
   nodes (sortNodes lcName lcExt BySize Desc siblingStore) (ascii ''p'') =
     Some (dirP [fileB, fileA, dirZ])"
  by (simp add: sortNodes_def sortChildren_def sortNodesByConfig_def arraySort_def
        compareNodes_def setNodes_def initialState_def siblingStore_def dirP_def dirZ_def
        fileA_def fileB_def)


subsection \<open>Adding a root twice\<close>

text \<open>
  C4, as stated, at a concrete input: \<open>addNode\<close> does not look whether the path is
  already a root path. Adding the depth-0 node \<open>root\<close> twice lists \<open>/project\<close> twice.
\<close>

theorem addNode_twice_duplicates:
  "depth mockRoot = 0 \<and>
   path mockRoot \<in> set (rootPaths (addNode mockRoot initialState)) \<and>
   rootPaths (addNode mockRoot (addNode mockRoot initialState)) = [path mockRoot, path mockRoot] \<and>
   \<not> distinct (rootPaths (addNode mockRoot (addNode mockRoot initialState)))"
  by (simp add: addNode_def initialState_def mockRoot_def)

text \<open>
  C4, amended. For every node of depth 0, \<open>addNode\<close> inserts or overwrites the node under
  its id and appends its path to the root-path list, whether or not the path is already there.
\<close>

theorem addNode_root:
  assumes "depth node = 0"
  shows "nodes (addNode node s) = (nodes s)(id' node \<mapsto> node) \<and>
         rootPaths (addNode node s) = rootPaths s @ [path node]"
  using assms by (simp add: addNode_def)

theorem addNode_root_witness:
  "depth mockRoot = 0 \<and>
   nodes (addNode mockRoot initialState) = (nodes initialState)(id' mockRoot \<mapsto> mockRoot) \<and>
   rootPaths (addNode mockRoot initialState) = [ascii ''/project'']"
proof -
  have d: "depth mockRoot = 0"
    by (simp add: mockRoot_def)
  have "rootPaths (initialState :: Store) = []" "path mockRoot = ascii ''/project''"
    by (simp_all add: initialState_def mockRoot_def)
  then show ?thesis
    using d addNode_root [OF d, of initialState] by simp
qed

subsection \<open>Expanding a file\<close>

text \<open>
  C5, as stated, at a concrete input: the store's \<open>expandNode\<close> does not read the node.
  With the test file's nodes in the table, expanding the file \<open>file1\<close> puts its id into
  the expansion set.
\<close>

theorem expandNode_file_counterexample:
  "nodes mockStore (ascii ''file1'') = Some mockFile1 \<and> type' mockFile1 = File \<and>
   expandedNodes mockStore = [] \<and>
   expandedNodes (expandNode (ascii ''file1'') mockStore) = [ascii ''file1'']"
  by (simp add: expandNode_def setNodes_def initialState_def mockStore_def mockNodes_def
        mockRoot_def mockSrc_def mockFile1_def ascii_simps)

text \<open>
  C5, amended. For every state and every id whose node has kind file, \<open>expandNode\<close>
  appends the id to the expansion set unless it is already there, and changes nothing
  else; afterwards the id is in the expansion set.
\<close>

theorem expandNode_file:
  assumes "nodes s i = Some n" and "type' n = File"
  shows "expandNode i s =
           s\<lparr>expandedNodes :=
               (if i \<in> set (expandedNodes s) then expandedNodes s else expandedNodes s @ [i])\<rparr> \<and>
         i \<in> set (expandedNodes (expandNode i s))"
  by (simp add: expandNode_def)

theorem expandNode_file_witness:
  "nodes mockStore (ascii ''file1'') = Some mockFile1 \<and> type' mockFile1 = File \<and>
   ascii ''file1'' \<in> set (expandedNodes (expandNode (ascii ''file1'') mockStore))"
proof -
  have n: "nodes mockStore (ascii ''file1'') = Some mockFile1"
    by (simp add: setNodes_def initialState_def mockStore_def mockNodes_def
          mockRoot_def mockSrc_def mockFile1_def ascii_simps)
  have t: "type' mockFile1 = File"
    by (simp add: mockFile1_def)
  show ?thesis
    using n t expandNode_file [OF n t] by simp
qed

subsection \<open>Selected nodes\<close>






subsection \<open>Updating an absent id\<close>

lemma spread_emptyObject: "spread emptyObject u = u"
  by (cases u) (simp add: spread_def emptyObject_def orElse_def split: option.splits)

text \<open>
  On an id that is in the table, \<open>updateNode\<close> is \<open>mergeNode\<close> on the stored node, as
  \<open>handleFileWatchEvent\<close> uses it.
\<close>

lemma updateNode_present:
  "nodes s i = Some n \<Longrightarrow>
     updateNode i u (raw s) = raw (s\<lparr>nodes := (nodes s)(i \<mapsto> mergeNode n u)\<rparr>)"
  by (auto simp: updateNode_def raw_def mergeNode_def spread_def partial_def orElse_def
        fun_eq_iff split: option.splits)

text \<open>
  C6, as stated, at a concrete input: with the test file's nodes in the table, the id
  \<open>ghost\<close> is absent; \<open>updateNode('ghost', {size: 2048})\<close> stores the object \<open>{size: 2048}\<close>
  under it, and \<open>setLoading('ghost', true)\<close> stores \<open>{isLoading: true}\<close>.
\<close>

theorem updateNode_absent_counterexample:
  "nodes (raw mockStore) (ascii ''ghost'') = None \<and>
   nodes (updateNode (ascii ''ghost'') (emptyObject\<lparr>p_size := Some 2048\<rparr>) (raw mockStore))
     (ascii ''ghost'') = Some (emptyObject\<lparr>p_size := Some 2048\<rparr>) \<and>
   nodes (setLoading (ascii ''ghost'') True (raw mockStore)) (ascii ''ghost'') =
     Some (emptyObject\<lparr>p_isLoading := Some True\<rparr>)"
  by (simp add: updateNode_def setLoading_def raw_def spread_emptyObject setNodes_def
        initialState_def mockStore_def mockNodes_def mockRoot_def mockSrc_def mockFile1_def
        ascii_simps)

text \<open>
  C6, amended. For every id absent from the node table, \<open>updateNode(id, partialFields)\<close>
  inserts under that id an object that has exactly the given fields, and leaves every
  other entry as it was; \<open>setLoading(id, loading)\<close> inserts \<open>{isLoading: loading}\<close> likewise.
\<close>

theorem updateNode_absent:
  assumes "nodes s i = None"
  shows "nodes (updateNode i updates s) = (nodes s)(i \<mapsto> updates) \<and>
         nodes (setLoading i loading s) =
           (nodes s)(i \<mapsto> emptyObject\<lparr>p_isLoading := Some loading\<rparr>)"
  using assms by (simp add: updateNode_def setLoading_def spread_emptyObject)

theorem updateNode_absent_witness:
  "nodes (raw mockStore) (ascii ''ghost'') = None \<and>
   dom (nodes (updateNode (ascii ''ghost'') emptyObject (raw mockStore))) =
     insert (ascii ''ghost'') (dom (nodes (raw mockStore)))"
proof -
  have a: "nodes (raw mockStore) (ascii ''ghost'') = None"
    by (simp add: raw_def setNodes_def initialState_def mockStore_def mockNodes_def
          mockRoot_def mockSrc_def mockFile1_def ascii_simps)
  show ?thesis
    using a updateNode_absent [OF a, of emptyObject True] by simp
qed

subsection \<open>Watch events on unknown paths\<close>

text \<open>
  C7, as stated, at a concrete input: the id of the event's path is computed first, and
  \<open>encodeURIComponent\<close> throws on a path with an unpaired surrogate. A \<open>deleted\<close> event for
  the path made of the single high surrogate \<open>0xD800\<close>, which has no entry in the (empty)
  table, raises URIError.
\<close>

theorem watch_event_lone_surrogate:
  "handleFileWatchEvent 8
     \<lparr>ev_type = Deleted, ev_path = [0xD800], oldPath = None, stats = None\<rparr> initialState =
   Inl URIError"
  by (simp add: handleFileWatchEvent_def generateNodeId_def encodeURIComponent_def
        uriUnreserved_def)

text \<open>
  C7, amended. For every watch event of type modified, deleted or renamed whose paths
  \<open>generateNodeId\<close> accepts (no unpaired surrogate), if the id of the referenced path (for
  renamed, of the old path) is not in the node table, applying the event does not raise
  and leaves the store, hence the node table, unchanged.
\<close>

theorem watch_event_unknown:
  assumes "ev_type event \<noteq> Created"
    and "generateNodeId (ev_path event) = Inr i"
    and "ev_type event \<noteq> Renamed \<longrightarrow> nodes s i = None"
    and "ev_type event = Renamed \<longrightarrow>
           (case oldPath event of
              None \<Rightarrow> True
            | Some old \<Rightarrow> \<exists>j. generateNodeId old = Inr j \<and> nodes s j = None)"
  shows "handleFileWatchEvent stack event s = Inr s"
  using assms
  by (cases "ev_type event")
     (auto simp: handleFileWatchEvent_def split: option.splits)

lemma generateNodeId_gone: "generateNodeId (ascii ''/gone'') = Inr (ascii ''JTJGZ29uZQ'')"
  by (simp add: generateNodeId_def encodeURIComponent_def uriUnreserved_def ascii_def
        escape_def utf8_def percent_def hexDigit_def b64_def stripped_def)

lemma generateNodeId_new: "generateNodeId (ascii ''/new'') = Inr (ascii ''JTJGbmV3'')"
  by (simp add: generateNodeId_def encodeURIComponent_def uriUnreserved_def ascii_def
        escape_def utf8_def percent_def hexDigit_def b64_def stripped_def)

theorem watch_event_unknown_witness:
  "handleFileWatchEvent 8
     \<lparr>ev_type = Deleted, ev_path = ascii ''/gone'', oldPath = None, stats = None\<rparr> mockStore =
     Inr mockStore \<and>
   handleFileWatchEvent 8
     \<lparr>ev_type = Modified, ev_path = ascii ''/gone'', oldPath = None,
      stats = Some \<lparr>st_size = 1, st_lastModified = 2, isDirectory = False\<rparr>\<rparr> mockStore =
     Inr mockStore \<and>
   handleFileWatchEvent 8
     \<lparr>ev_type = Renamed, ev_path = ascii ''/new'', oldPath = Some (ascii ''/gone''),
      stats = None\<rparr> mockStore =
     Inr mockStore"
proof -
  have absent: "nodes mockStore (ascii ''JTJGZ29uZQ'') = None"
    by (simp add: setNodes_def initialState_def mockStore_def mockNodes_def
          mockRoot_def mockSrc_def mockFile1_def ascii_simps)
  have deleted: "handleFileWatchEvent 8
     \<lparr>ev_type = Deleted, ev_path = ascii ''/gone'', oldPath = None, stats = None\<rparr> mockStore =
     Inr mockStore"
    by (rule watch_event_unknown [where i = "ascii ''JTJGZ29uZQ''"])
       (simp_all add: generateNodeId_gone absent)
  have modified: "handleFileWatchEvent 8
     \<lparr>ev_type = Modified, ev_path = ascii ''/gone'', oldPath = None,
      stats = Some \<lparr>st_size = 1, st_lastModified = 2, isDirectory = False\<rparr>\<rparr> mockStore =
     Inr mockStore"
    by (rule watch_event_unknown [where i = "ascii ''JTJGZ29uZQ''"])
       (simp_all add: generateNodeId_gone absent)
  have renamed: "handleFileWatchEvent 8
     \<lparr>ev_type = Renamed, ev_path = ascii ''/new'', oldPath = Some (ascii ''/gone''),
      stats = None\<rparr> mockStore =
     Inr mockStore"
    by (rule watch_event_unknown [where i = "ascii ''JTJGbmV3''"])
       (simp_all add: generateNodeId_gone generateNodeId_new absent)
  from deleted modified renamed show ?thesis
    by simp
qed

subsection \<open>Cache expiry\<close>

text \<open>
  C8. \<open>getCachedNodes\<close> sweeps first and looks the path up in the swept cache: an entry
  whose expiry lies before \<open>now\<close> is in neither map afterwards. A \<open>get\<close> at most
  \<open>CACHE_DURATION\<close> (five minutes) after the \<open>set\<close> of the same path returns the nodes
  that were set; a \<open>get\<close> later than that returns a miss.
\<close>

theorem cache_ttl:
  "fst (getCachedNodes now q c) = cache (cleanExpiredCache now c) q \<and>
   snd (getCachedNodes now q c) = cleanExpiredCache now c \<and>
   (\<forall>key expiry. cacheExpiry c key = Some expiry \<and> expiry < now \<longrightarrow>
      cache (cleanExpiredCache now c) key = None \<and>
      cacheExpiry (cleanExpiredCache now c) key = None) \<and>
   (t1 \<le> t + CACHE_DURATION \<longrightarrow>
      fst (getCachedNodes t1 p (setCachedNodes t p ns c)) = Some ns) \<and>
   (t + CACHE_DURATION < t2 \<longrightarrow>
      fst (getCachedNodes t2 p (setCachedNodes t p ns c)) = None) \<and>
   CACHE_DURATION = 300000"
  by (simp add: getCachedNodes_def cleanExpiredCache_def setCachedNodes_def expiredAt_def
        CACHE_DURATION_def Let_def)

theorem cache_ttl_witness:
  "fst (getCachedNodes 1000 (ascii ''/p'')
          (setCachedNodes 1000 (ascii ''/p'') [fileA] emptyService)) = Some [fileA] \<and>
   fst (getCachedNodes 301001 (ascii ''/p'')
          (setCachedNodes 1000 (ascii ''/p'') [fileA] emptyService)) = None \<and>
   cache (snd (getCachedNodes 301001 (ascii ''/q'')
                 (setCachedNodes 1000 (ascii ''/p'') [fileA] emptyService)))
     (ascii ''/p'') = None"
proof -
  let ?c = "setCachedNodes 1000 (ascii ''/p'') [fileA] emptyService"
  have e: "cacheExpiry ?c (ascii ''/p'') = Some 301000 \<and> (301000::int) < 301001"
    by (simp add: setCachedNodes_def CACHE_DURATION_def)
  have h1: "(1000::int) \<le> 1000 + CACHE_DURATION"
    and h2: "1000 + CACHE_DURATION < (301001::int)"
    by (simp_all add: CACHE_DURATION_def)
  note sweep = cache_ttl [where now = 301001 and q = "ascii ''/q''" and c = ?c]
  note ttl = cache_ttl [where t = 1000 and ?t1.0 = 1000 and ?t2.0 = 301001
                          and p = "ascii ''/p''" and ns = "[fileA]" and c = emptyService]
  from sweep e
  have "cache (snd (getCachedNodes 301001 (ascii ''/q'') ?c)) (ascii ''/p'') = None"
    by metis
  with ttl h1 h2 show ?thesis
    by blast
qed


subsection \<open>Batch delete\<close>

subsubsection \<open>One event\<close>

lemma run_snoc:
  "run (es @ [e]) b = (case run es b of None \<Rightarrow> None | Some b' \<Rightarrow> step e b')"
  by (induction es arbitrary: b) (auto split: option.splits)

lemma granted_snoc: "granted (trace @ [e]) = granted trace @ granting e"
  by (simp add: granted_def)

lemma deleteNode_Rejected: "deleteNode node (Rejected m) c = (False, c)"
  by (simp add: deleteNode_def)

lemma deleteItem_Inr:
  "deleteItem k reply = Inr outcome \<Longrightarrow>
     fst (deleteNode node outcome c) = (granting (Reply i reply) = [i])"
  by (auto simp: deleteItem_def withRetry_def deleteOperation_def deleteNode_def
           split: settled.splits option.splits if_splits)

lemma deleteItem_Inl:
  "deleteItem k reply = Inl m \<Longrightarrow> granting (Reply i reply) = [] \<and> k \<noteq> maxRetries"
  by (auto simp: deleteItem_def withRetry_def deleteOperation_def
           split: settled.splits option.splits if_splits)

lemma granting_Reply: "granting (Reply i reply) = [] \<or> granting (Reply i reply) = [i]"
  by (cases reply) simp_all

lemma tasks_settle:
  "tasks (settle i node outcome b) =
     (tasks b)[i := (node, Settled (fst (deleteNode node outcome (service b))))]"
  by (simp add: settle_def push_def split: prod.splits)

lemma calls_settle: "calls (settle i node outcome b) = calls b"
  by (simp add: settle_def push_def split: prod.splits)

lemma successful_settle:
  "successful (result (settle i node outcome b)) =
     successful (result b) @ (if fst (deleteNode node outcome (service b)) then [node] else [])"
  by (simp add: settle_def push_def split: prod.splits)

lemma failed_settle:
  "failed (result (settle i node outcome b)) =
     failed (result b) @
       (if fst (deleteNode node outcome (service b)) then [] else [(node, deleteFailed)])"
  by (simp add: settle_def push_def split: prod.splits)

lemma step_cases [consumes 1, case_names Settle Retry Again Overrun]:
  assumes "step e b = Some b'"
  obtains
    (Settle) i node k reply outcome where
      "e = Reply i reply" "i < length (tasks b)" "tasks b ! i = (node, InFlight k)"
      "deleteItem k reply = Inr outcome" "b' = settle i node outcome b"
  | (Retry) i node k reply m where
      "e = Reply i reply" "i < length (tasks b)" "tasks b ! i = (node, InFlight k)"
      "deleteItem k reply = Inl m" "b' = b\<lparr>tasks := (tasks b)[i := (node, Delayed k m)]\<rparr>"
  | (Again) i node k m where
      "e = Timer i" "i < length (tasks b)" "tasks b ! i = (node, Delayed k m)"
      "withRetry_next k m = (None :: FileOperationResult settled option)"
      "b' = b\<lparr>tasks := (tasks b)[i := (node, InFlight (k + 1))],
              calls := calls b @ [requestFor node]\<rparr>"
  | (Overrun) i node k m outcome where
      "e = Timer i" "i < length (tasks b)" "tasks b ! i = (node, Delayed k m)"
      "withRetry_next k m = Some outcome" "b' = settle i node outcome b"
proof (cases e)
  case (Reply i reply)
  with assms have i: "i < length (tasks b)"
    by (simp split: if_splits)
  obtain node ph where t: "tasks b ! i = (node, ph)"
    by (cases "tasks b ! i") auto
  show ?thesis
  proof (cases ph)
    case (InFlight k)
    show ?thesis
    proof (cases "deleteItem k reply")
      case (Inl m)
      with assms Reply i t InFlight have "b' = b\<lparr>tasks := (tasks b)[i := (node, Delayed k m)]\<rparr>"
        by simp
      with Reply i t InFlight Inl show ?thesis
        by (intro Retry) simp_all
    next
      case (Inr outcome)
      with assms Reply i t InFlight have "b' = settle i node outcome b"
        by simp
      with Reply i t InFlight Inr show ?thesis
        by (intro Settle) simp_all
    qed
  next
    case (Delayed k m)
    with assms Reply i t show ?thesis by simp
  next
    case (Settled ok)
    with assms Reply i t show ?thesis by simp
  qed
next
  case (Timer i)
  with assms have i: "i < length (tasks b)"
    by (simp split: if_splits)
  obtain node ph where t: "tasks b ! i = (node, ph)"
    by (cases "tasks b ! i") auto
  show ?thesis
  proof (cases ph)
    case (InFlight k)
    with assms Timer i t show ?thesis by simp
  next
    case (Delayed k m)
    show ?thesis
    proof (cases "withRetry_next k m :: FileOperationResult settled option")
      case None
      with assms Timer i t Delayed
      have "b' = b\<lparr>tasks := (tasks b)[i := (node, InFlight (k + 1))],
                   calls := calls b @ [requestFor node]\<rparr>"
        by simp
      with Timer i t Delayed None show ?thesis
        by (intro Again) simp_all
    next
      case (Some outcome)
      with assms Timer i t Delayed have "b' = settle i node outcome b"
        by simp
      with Timer i t Delayed Some show ?thesis
        by (intro Overrun) simp_all
    qed
  next
    case (Settled ok)
    with assms Timer i t show ?thesis by simp
  qed
qed

subsubsection \<open>What a run keeps\<close>

lemma sum_list_update_weight:
  fixes f :: "'a \<Rightarrow> nat"
  assumes "i < length xs"
  shows "sum_list (map f (xs[i := y])) + f (xs ! i) = sum_list (map f xs) + f y"
  using assms
proof (induction xs arbitrary: i)
  case Nil
  then show ?case by simp
next
  case (Cons x xs)
  then show ?case
    by (cases i) auto
qed

lemma filter_update_skip:
  assumes "i < length xs" "\<not> P (xs ! i)" "\<not> P y"
  shows "filter P (xs[i := y]) = filter P xs"
  using assms
proof (induction xs arbitrary: i)
  case Nil
  then show ?case by simp
next
  case (Cons x xs)
  then show ?case
    by (cases i) auto
qed

lemma mset_filter_update_add:
  assumes "i < length xs" "\<not> P (xs ! i)" "P y"
  shows "mset (map f (filter P (xs[i := y]))) = add_mset (f y) (mset (map f (filter P xs)))"
  using assms
proof (induction xs arbitrary: i)
  case Nil
  then show ?case by simp
next
  case (Cons x xs)
  then show ?case
    by (cases i) auto
qed

lemma phaseOK_cong:
  "(i \<in> set (granted t) \<longleftrightarrow> i \<in> set (granted t')) \<Longrightarrow> phaseOK t i ph = phaseOK t' i ph"
  by (cases ph) simp_all

lemma phaseOK_pending:
  "phaseOK trace i ph \<Longrightarrow> \<not> isSettled ph \<Longrightarrow> i \<notin> set (granted trace)"
  by (cases ph) simp_all

lemma invariant_update:
  assumes inv: "invariant ns trace b"
    and i: "i < length (tasks b)"
    and old: "tasks b ! i = (node, ph)"
    and pending: "\<not> isSettled ph"
    and tasks': "tasks b' = (tasks b)[i := (node, ph')]"
    and succ': "successful (result b') =
                  successful (result b) @ (if ph' = Settled True then [node] else [])"
    and fail': "failed (result b') =
                  failed (result b) @ (if ph' = Settled False then [(node, deleteFailed)] else [])"
    and g: "granting e = (if ph' = Settled True then [i] else [])"
    and ok: "i \<notin> set (granted trace) \<Longrightarrow> phaseOK (trace @ [e]) i ph'"
    and w: "weight ph' < weight ph"
  shows "invariant ns (trace @ [e]) b'"
proof -
  let ?P = "\<lambda>t :: FileTreeNode \<times> phase. snd t = Settled False"
  let ?f = "\<lambda>t :: FileTreeNode \<times> phase. (fst t, deleteFailed)"
  from inv have A: "map fst (tasks b) = ns"
    and B: "\<forall>j < length ns. phaseOK trace j (snd (tasks b ! j))"
    and D: "distinct (granted trace)"
    and L: "list_all (\<lambda>i. i < length ns) (granted trace)"
    and S: "successful (result b) = map ((!) ns) (granted trace)"
    and F: "mset (failed (result b)) = mset (map ?f (filter ?P (tasks b)))"
    and M: "length trace + sum_list (map (\<lambda>t. weight (snd t)) (tasks b)) \<le> 5 * length ns"
    unfolding invariant_def by blast+
  from A have len: "length (tasks b) = length ns"
    by (metis length_map)
  from A i have "ns ! i = fst (tasks b ! i)"
    by (metis nth_map)
  with old have node: "ns ! i = node"
    by simp
  from B i len old have "phaseOK trace i ph"
    by (metis snd_conv)
  from this pending have fresh: "i \<notin> set (granted trace)"
    by (rule phaseOK_pending)
  have A': "map fst (tasks b') = ns"
  proof -
    have "map fst (tasks b') = (map fst (tasks b))[i := node]"
      by (simp add: tasks' map_update)
    also have "\<dots> = ns[i := ns ! i]"
      by (simp only: A node)
    also have "\<dots> = ns"
      by (rule list_update_id)
    finally show ?thesis .
  qed
  have B': "\<forall>j < length ns. phaseOK (trace @ [e]) j (snd (tasks b' ! j))"
  proof (intro allI impI)
    fix j assume j: "j < length ns"
    show "phaseOK (trace @ [e]) j (snd (tasks b' ! j))"
    proof (cases "j = i")
      case True
      with i have "snd (tasks b' ! j) = ph'"
        by (simp add: tasks')
      with ok [OF fresh] True show ?thesis
        by simp
    next
      case False
      then have same: "tasks b' ! j = tasks b ! j"
        by (simp add: tasks')
      from False g have "j \<in> set (granted (trace @ [e])) \<longleftrightarrow> j \<in> set (granted trace)"
        by (simp add: granted_snoc)
      then have "phaseOK (trace @ [e]) j (snd (tasks b ! j)) = phaseOK trace j (snd (tasks b ! j))"
        by (rule phaseOK_cong)
      with B j same show ?thesis
        by simp
    qed
  qed
  have D': "distinct (granted (trace @ [e]))"
    using D fresh g by (simp add: granted_snoc)
  have L': "list_all (\<lambda>i. i < length ns) (granted (trace @ [e]))"
    using L g i len by (simp add: granted_snoc)
  have S': "successful (result b') = map ((!) ns) (granted (trace @ [e]))"
    using S succ' g node by (simp add: granted_snoc)
  have F': "mset (failed (result b')) = mset (map ?f (filter ?P (tasks b')))"
  proof (cases "ph' = Settled False")
    case True
    from pending have "ph \<noteq> Settled False"
      by (cases ph) simp_all
    with i old True have "mset (map ?f (filter ?P ((tasks b)[i := (node, ph')]))) =
                       add_mset (?f (node, ph')) (mset (map ?f (filter ?P (tasks b))))"
      by (intro mset_filter_update_add) simp_all
    then have "mset (map ?f (filter ?P (tasks b'))) =
                 add_mset (node, deleteFailed) (mset (map ?f (filter ?P (tasks b))))"
      by (simp only: tasks' fst_conv)
    with F fail' True show ?thesis
      by simp
  next
    case False
    from pending have "ph \<noteq> Settled False"
      by (cases ph) simp_all
    with i old False have "filter ?P ((tasks b)[i := (node, ph')]) = filter ?P (tasks b)"
      by (intro filter_update_skip) simp_all
    with F fail' False show ?thesis
      by (simp add: tasks')
  qed
  have M': "length (trace @ [e]) + sum_list (map (\<lambda>t. weight (snd t)) (tasks b'))
              \<le> 5 * length ns"
  proof -
    from i have "sum_list (map (\<lambda>t. weight (snd t)) ((tasks b)[i := (node, ph')])) +
                   weight (snd (tasks b ! i)) =
                 sum_list (map (\<lambda>t. weight (snd t)) (tasks b)) + weight (snd (node, ph'))"
      by (rule sum_list_update_weight)
    with old w M show ?thesis
      by (simp add: tasks')
  qed
  from A' B' D' L' S' F' M' show ?thesis
    unfolding invariant_def by blast
qed

lemma invariant_phase:
  assumes "invariant ns trace b" "i < length (tasks b)" "tasks b ! i = (node, ph)"
  shows "phaseOK trace i ph"
proof -
  from assms(1) have A: "map fst (tasks b) = ns"
    and B: "\<forall>j < length ns. phaseOK trace j (snd (tasks b ! j))"
    unfolding invariant_def by blast+
  from A have "length (tasks b) = length ns"
    by (metis length_map)
  with B assms(2,3) show ?thesis
    by (metis snd_conv)
qed

lemma invariant_step:
  assumes inv: "invariant ns trace b" and step: "step e b = Some b'"
  shows "invariant ns (trace @ [e]) b'"
  using step
proof (cases rule: step_cases)
  case (Settle i node k reply outcome)
  let ?ok = "fst (deleteNode node outcome (service b))"
  from Settle(4) have ok: "?ok = (granting (Reply i reply) = [i])"
    by (rule deleteItem_Inr)
  have g: "granting e = (if Settled ?ok = Settled True then [i] else [])"
    using ok granting_Reply [of i reply] Settle(1) by auto
  show ?thesis
  proof (rule invariant_update [OF inv Settle(2,3)])
    show "\<not> isSettled (InFlight k)"
      by simp
    show "tasks b' = (tasks b)[i := (node, Settled ?ok)]"
      by (simp only: Settle(5) tasks_settle)
    show "successful (result b') =
            successful (result b) @ (if Settled ?ok = Settled True then [node] else [])"
      by (simp add: Settle(5) successful_settle)
    show "failed (result b') =
            failed (result b) @ (if Settled ?ok = Settled False then [(node, deleteFailed)] else [])"
      by (simp add: Settle(5) failed_settle)
    show "granting e = (if Settled ?ok = Settled True then [i] else [])"
      by (rule g)
    show "phaseOK (trace @ [e]) i (Settled ?ok)" if "i \<notin> set (granted trace)"
      using that g by (simp add: granted_snoc)
    show "weight (Settled ?ok) < weight (InFlight k)"
      by simp
  qed
next
  case (Retry i node k reply m)
  from Retry(4) have none: "granting (Reply i reply) = []" and last: "k \<noteq> maxRetries"
    by (simp_all add: deleteItem_Inl)
  from invariant_phase [OF inv Retry(2,3)] have k: "1 \<le> k" "k \<le> maxRetries"
    by simp_all
  show ?thesis
  proof (rule invariant_update [OF inv Retry(2,3)])
    show "\<not> isSettled (InFlight k)"
      by simp
    show "tasks b' = (tasks b)[i := (node, Delayed k m)]"
      by (simp add: Retry(5))
    show "successful (result b') =
            successful (result b) @ (if Delayed k m = Settled True then [node] else [])"
      by (simp add: Retry(5))
    show "failed (result b') =
            failed (result b) @ (if Delayed k m = Settled False then [(node, deleteFailed)] else [])"
      by (simp add: Retry(5))
    show "granting e = (if Delayed k m = Settled True then [i] else [])"
      using none Retry(1) by simp
    show "phaseOK (trace @ [e]) i (Delayed k m)" if "i \<notin> set (granted trace)"
      using that none Retry(1) k last by (simp add: granted_snoc)
    show "weight (Delayed k m) < weight (InFlight k)"
      by simp
  qed
next
  case (Again i node k m)
  from invariant_phase [OF inv Again(2,3)] have k: "1 \<le> k" "k < maxRetries"
    by simp_all
  show ?thesis
  proof (rule invariant_update [OF inv Again(2,3)])
    show "\<not> isSettled (Delayed k m)"
      by simp
    show "tasks b' = (tasks b)[i := (node, InFlight (k + 1))]"
      by (simp add: Again(5))
    show "successful (result b') =
            successful (result b) @ (if InFlight (k + 1) = Settled True then [node] else [])"
      by (simp add: Again(5))
    show "failed (result b') =
            failed (result b) @
              (if InFlight (k + 1) = Settled False then [(node, deleteFailed)] else [])"
      by (simp add: Again(5))
    show "granting e = (if InFlight (k + 1) = Settled True then [i] else [])"
      by (simp add: Again(1))
    show "phaseOK (trace @ [e]) i (InFlight (k + 1))" if "i \<notin> set (granted trace)"
      using that k by (simp add: granted_snoc Again(1))
    show "weight (InFlight (k + 1)) < weight (Delayed k m)"
      using k by simp
  qed
next
  case (Overrun i node k m outcome)
  from invariant_phase [OF inv Overrun(2,3)] have "k < maxRetries"
    by simp
  with Overrun(4) show ?thesis
    by (simp add: withRetry_next_def)
qed

lemma foldl_refuse:
  "foldl refuse b ns =
     b\<lparr>tasks := tasks b @ map (\<lambda>node. (node, Settled False)) ns,
       result := (result b)\<lparr>failed := failed (result b) @ map (\<lambda>node. (node, deleteFailed)) ns\<rparr>\<rparr>"
proof (induction ns arbitrary: b)
  case Nil
  show ?case by simp
next
  case (Cons node ns)
  have "refuse b node =
          b\<lparr>tasks := tasks b @ [(node, Settled False)],
            result := (result b)\<lparr>failed := failed (result b) @ [(node, deleteFailed)]\<rparr>\<rparr>"
    by (simp add: refuse_def push_def deleteNode_Rejected)
  then show ?case
    by (simp add: Cons.IH)
qed

lemma start_unavailable:
  "start False ns c =
     \<lparr>tasks = map (\<lambda>node. (node, Settled False)) ns, calls = [],
      result = \<lparr>successful = [], failed = map (\<lambda>node. (node, deleteFailed)) ns\<rparr>,
      service = c\<rparr>"
  by (simp add: start_def foldl_refuse)

lemma invariant_start: "invariant ns [] (start available ns c)"
proof (cases available)
  case True
  have "sum_list (map (\<lambda>t. weight (snd t)) (map (\<lambda>node. (node, InFlight 1)) ns)) =
          5 * length ns"
    by (induction ns) (simp_all add: maxRetries_def)
  with True show ?thesis
    by (simp add: invariant_def start_def granted_def comp_def maxRetries_def filter_map)
next
  case False
  have "sum_list (map (\<lambda>t. weight (snd t)) (map (\<lambda>node. (node, Settled False)) ns)) = 0"
    by (induction ns) simp_all
  moreover have "filter (\<lambda>t. snd t = Settled False) (map (\<lambda>node. (node, Settled False)) ns) =
                   map (\<lambda>node. (node, Settled False)) ns"
    by (induction ns) simp_all
  ultimately show ?thesis
    using False
    by (simp add: invariant_def start_unavailable granted_def comp_def)
qed

lemma invariant_run:
  "run trace (start available ns c) = Some b \<Longrightarrow> invariant ns trace b"
proof (induction trace arbitrary: b rule: rev_induct)
  case Nil
  then have "b = start available ns c"
    by simp
  then show ?case
    by (simp only: invariant_start)
next
  case (snoc e es)
  from snoc.prems obtain b0 where b0: "run es (start available ns c) = Some b0"
    and step: "step e b0 = Some b"
    by (auto simp: run_snoc split: option.splits)
  from snoc.IH [OF b0] step show ?case
    by (rule invariant_step)
qed

lemma calls_step:
  assumes "step e b = Some b'"
  shows "\<exists>more. calls b' = calls b @ more"
  using assms
proof (cases rule: step_cases)
  case (Settle i node k reply outcome)
  then have "calls b' = calls b @ []"
    by (simp add: calls_settle)
  then show ?thesis ..
next
  case (Retry i node k reply m)
  then have "calls b' = calls b @ []"
    by simp
  then show ?thesis ..
next
  case (Again i node k m)
  then have "calls b' = calls b @ [requestFor node]"
    by simp
  then show ?thesis ..
next
  case (Overrun i node k m outcome)
  then have "calls b' = calls b @ []"
    by (simp add: calls_settle)
  then show ?thesis ..
qed

lemma calls_run:
  "run trace b = Some b' \<Longrightarrow> \<exists>more. calls b' = calls b @ more"
proof (induction trace arbitrary: b)
  case Nil
  then show ?case by simp
next
  case (Cons e es)
  from Cons.prems obtain b1 where s: "step e b = Some b1" and r: "run es b1 = Some b'"
    by (auto split: option.splits)
  from calls_step [OF s] Cons.IH [OF r] show ?case
    by auto
qed

lemma calls_first:
  assumes "run trace (start True ns c) = Some b"
  shows "take (length ns) (calls b) = map requestFor ns"
proof -
  from calls_run [OF assms] obtain more where "calls b = map requestFor ns @ more"
    by (auto simp: start_def)
  then show ?thesis
    by simp
qed

lemma pending_step:
  assumes "returned b = None"
  shows "\<exists>e b'. step e b = Some b'"
proof -
  from assms obtain t where t: "t \<in> set (tasks b)" and p: "\<not> isSettled (snd t)"
    by (auto simp: returned_def list_all_iff split: if_splits)
  from t obtain i where i: "i < length (tasks b)" and ti: "tasks b ! i = t"
    by (auto simp: in_set_conv_nth)
  obtain node ph where tp: "t = (node, ph)"
    by (cases t) auto
  show ?thesis
  proof (cases ph)
    case (InFlight k)
    with i ti tp have "step (Reply i (Fulfilled \<lparr>success = True, err = None\<rparr>)) b \<noteq> None"
      by (simp split: sum.splits)
    then show ?thesis by blast
  next
    case (Delayed k m)
    with i ti tp have "step (Timer i) b \<noteq> None"
      by (simp split: option.splits)
    then show ?thesis by blast
  next
    case (Settled ok)
    with p tp show ?thesis by simp
  qed
qed

lemma returned_tasks:
  assumes inv: "invariant ns trace b" and ret: "returned b = Some r"
  shows "tasks b = map (\<lambda>i. (ns ! i, Settled (i \<in> set (granted trace)))) [0..<length ns]"
proof (rule nth_equalityI)
  from inv have A: "map fst (tasks b) = ns"
    and B: "\<forall>j < length ns. phaseOK trace j (snd (tasks b ! j))"
    unfolding invariant_def by blast+
  from A have len: "length (tasks b) = length ns"
    by (metis length_map)
  then show "length (tasks b) =
               length (map (\<lambda>i. (ns ! i, Settled (i \<in> set (granted trace)))) [0..<length ns])"
    by simp
  fix i assume i: "i < length (tasks b)"
  from A i have f: "fst (tasks b ! i) = ns ! i"
    by (metis nth_map)
  from ret i have "isSettled (snd (tasks b ! i))"
    by (auto simp: returned_def list_all_length split: if_splits)
  then obtain ok where s: "snd (tasks b ! i) = Settled ok"
    by (cases "snd (tasks b ! i)") simp_all
  from B i len s have "ok = (i \<in> set (granted trace))"
    by (metis phaseOK.simps(3))
  with f s i len
  show "tasks b ! i = map (\<lambda>i. (ns ! i, Settled (i \<in> set (granted trace)))) [0..<length ns] ! i"
    by (simp add: prod_eq_iff)
qed

subsubsection \<open>What a call returns\<close>

lemma returned_result: "returned b = Some r \<Longrightarrow> r = result b"
  by (simp add: returned_def split: if_splits)

lemma returned_failed:
  assumes inv: "invariant ns trace b" and ret: "returned b = Some r"
  shows "mset (failed r) =
           mset (map (\<lambda>i. (ns ! i, deleteFailed))
                  (filter (\<lambda>i. i \<notin> set (granted trace)) [0..<length ns]))"
proof -
  let ?h = "\<lambda>i. (ns ! i, Settled (i \<in> set (granted trace)))"
  from inv have "mset (failed (result b)) =
      mset (map (\<lambda>t. (fst t, deleteFailed)) (filter (\<lambda>t. snd t = Settled False) (tasks b)))"
    unfolding invariant_def by blast
  also have "tasks b = map ?h [0..<length ns]"
    using inv ret by (rule returned_tasks)
  also have "map (\<lambda>t. (fst t, deleteFailed))
               (filter (\<lambda>t. snd t = Settled False) (map ?h [0..<length ns])) =
             map (\<lambda>i. (ns ! i, deleteFailed))
               (filter (\<lambda>i. i \<notin> set (granted trace)) [0..<length ns])"
    by (simp add: filter_map comp_def)
  finally show ?thesis
    using returned_result [OF ret] by simp
qed

lemma granted_indices:
  assumes "distinct g" "list_all (\<lambda>i. i < n) g"
  shows "mset g = mset (filter (\<lambda>i. i \<in> set g) [0..<n])"
proof (rule set_eq_iff_mset_eq_distinct [THEN iffD1])
  show "distinct g" by (rule assms(1))
  show "distinct (filter (\<lambda>i. i \<in> set g) [0..<n])" by simp
  from assms(2) show "set g = set (filter (\<lambda>i. i \<in> set g) [0..<n])"
    by (auto simp: list_all_iff)
qed

lemma returned_partition:
  assumes inv: "invariant ns trace b" and ret: "returned b = Some r"
  shows "mset (successful r) + mset (map fst (failed r)) = mset ns"
proof -
  let ?G = "\<lambda>i. i \<in> set (granted trace)"
  from inv have D: "distinct (granted trace)"
    and L: "list_all (\<lambda>i. i < length ns) (granted trace)"
    and S: "successful (result b) = map ((!) ns) (granted trace)"
    unfolding invariant_def by blast+
  have "mset (successful r) = image_mset ((!) ns) (mset (granted trace))"
    using S returned_result [OF ret] by simp
  also have "mset (granted trace) = mset (filter ?G [0..<length ns])"
    using D L by (rule granted_indices)
  finally have s: "mset (successful r) = image_mset ((!) ns) (mset (filter ?G [0..<length ns]))" .
  have "mset (map fst (failed r)) = image_mset fst (mset (failed r))"
    by simp
  also have "mset (failed r) =
      mset (map (\<lambda>i. (ns ! i, deleteFailed)) (filter (\<lambda>i. \<not> ?G i) [0..<length ns]))"
    using inv ret by (rule returned_failed)
  finally have f: "mset (map fst (failed r)) =
      image_mset ((!) ns) (mset (filter (\<lambda>i. \<not> ?G i) [0..<length ns]))"
    by (simp add: image_mset.compositionality comp_def)
  have "mset (filter ?G [0..<length ns]) + mset (filter (\<lambda>i. \<not> ?G i) [0..<length ns]) =
          mset [0..<length ns]"
    by (simp only: mset_filter multiset_partition [symmetric])
  then have "image_mset ((!) ns) (mset (filter ?G [0..<length ns])) +
             image_mset ((!) ns) (mset (filter (\<lambda>i. \<not> ?G i) [0..<length ns])) =
             image_mset ((!) ns) (mset [0..<length ns])"
    by (simp only: image_mset_union [symmetric])
  also have "\<dots> = mset (map ((!) ns) [0..<length ns])"
    by simp
  also have "\<dots> = mset ns"
    by (simp only: map_nth)
  finally show ?thesis
    using s f by simp
qed

lemma returned_pair:
  assumes inv: "invariant [a, z] trace b" and ret: "returned b = Some r"
    and g: "granted trace = [0]"
  shows "r = \<lparr>successful = [a], failed = [(z, deleteFailed)]\<rparr>"
proof -
  from inv have "successful (result b) = map ((!) [a, z]) (granted trace)"
    unfolding invariant_def by blast
  with g returned_result [OF ret] have s: "successful r = [a]"
    by simp
  from returned_failed [OF inv ret] g have "mset (failed r) = {#(z, deleteFailed)#}"
    by (simp add: upt_rec)
  then have "failed r = [(z, deleteFailed)]"
    by simp
  with s show ?thesis
    by (cases r) simp
qed

lemma run_completes:
  "run trace (start available ns c) = Some b \<Longrightarrow>
     \<exists>more b'. run (trace @ more) (start available ns c) = Some b' \<and> returned b' \<noteq> None"
proof (induction trace arbitrary: b
         rule: measure_induct_rule [where f = "\<lambda>t. 5 * length ns - length t"])
  case (less trace)
  show ?case
  proof (cases "returned b")
    case (Some r)
    with less.prems have "run (trace @ []) (start available ns c) = Some b \<and> returned b \<noteq> None"
      by simp
    then show ?thesis
      by blast
  next
    case None
    from pending_step [OF None] obtain e b1 where "step e b = Some b1"
      by blast
    with less.prems have run1: "run (trace @ [e]) (start available ns c) = Some b1"
      by (simp add: run_snoc)
    from invariant_run [OF run1] have "length (trace @ [e]) \<le> 5 * length ns"
      unfolding invariant_def by linarith
    then have "5 * length ns - length (trace @ [e]) < 5 * length ns - length trace"
      by simp
    from less.IH [OF this run1] obtain more b'
      where "run ((trace @ [e]) @ more) (start available ns c) = Some b'"
        and "returned b' \<noteq> None"
      by blast
    then have "run (trace @ (e # more)) (start available ns c) = Some b' \<and> returned b' \<noteq> None"
      by simp
    then show ?thesis
      by blast
  qed
qed

text \<open>
  Runs on \<open>[fileA, fileB]\<close>. The scenario; both deleted, \<open>fileB\<close> first: the arrays are in
  the order of completion; one reply only: the call has not returned; a delay elapsing
  where none is running: not a run. And with the API absent every node fails, in the
  order of the input, without an event.
\<close>

lemma scenario_run:
  "deleteMultipleNodes True [fileA, fileB] emptyService scenario =
     Some \<lparr>tasks = [(fileA, Settled True), (fileB, Settled False)],
           calls = [requestFor fileA, requestFor fileB, requestFor fileB, requestFor fileB],
           result = \<lparr>successful = [fileA], failed = [(fileB, deleteFailed)]\<rparr>,
           service = clearCache (ascii ''/p'') (clearCache (ascii ''/p/a'') emptyService)\<rparr>"
  by (simp add: deleteMultipleNodes_def start_def scenario_def deleted_def permissionDenied_def
        deleteItem_def withRetry_def withRetry_next_def deleteOperation_def maxRetries_def
        settle_def push_def deleteNode_def fileA_def fileB_def ascii_simps parentPathOf_def
        slash_def)

lemma deleteMultipleNodes_completion_order:
  "map_option returned
     (deleteMultipleNodes True [fileA, fileB] emptyService [Reply 1 deleted, Reply 0 deleted]) =
     Some (Some \<lparr>successful = [fileB, fileA], failed = []\<rparr>) \<and>
   map_option returned
     (deleteMultipleNodes True [fileA, fileB] emptyService [Reply 1 deleted]) = Some None \<and>
   deleteMultipleNodes True [fileA, fileB] emptyService [Timer 0] = None"
  by (simp add: deleteMultipleNodes_def start_def deleted_def returned_def
        deleteItem_def withRetry_def deleteOperation_def maxRetries_def
        settle_def push_def deleteNode_def)

lemma deleteMultipleNodes_unavailable:
  "map_option returned (deleteMultipleNodes False ns c []) =
     Some (Some \<lparr>successful = [], failed = map (\<lambda>node. (node, deleteFailed)) ns\<rparr>)"
  by (simp add: deleteMultipleNodes_def start_unavailable returned_def list_all_iff)

text \<open>
  C9, as stated, at the claim's own scenario: the request for \<open>fileA\<close> succeeds, and each
  of the three requests for \<open>fileB\<close> is answered \<open>{success: false, error: 'PermissionDenied'}\<close>.
  \<open>deleteNode\<close> returns only \<open>false\<close> for \<open>fileB\<close>, and the batch pairs it with its fixed
  literal, not with the gateway's reason.
\<close>

theorem deleteMultipleNodes_reason_counterexample:
  "scenario =
     [Reply 0 (Fulfilled \<lparr>success = True, err = None\<rparr>),
      Reply 1 (Fulfilled \<lparr>success = False, err = Some (ascii ''PermissionDenied'')\<rparr>),
      Timer 1,
      Reply 1 (Fulfilled \<lparr>success = False, err = Some (ascii ''PermissionDenied'')\<rparr>),
      Timer 1,
      Reply 1 (Fulfilled \<lparr>success = False, err = Some (ascii ''PermissionDenied'')\<rparr>)] \<and>
   map_option returned (deleteMultipleNodes True [fileA, fileB] emptyService scenario) =
     Some (Some \<lparr>successful = [fileA], failed = [(fileB, deleteFailed)]\<rparr>) \<and>
   deleteFailed \<noteq> ascii ''PermissionDenied''"
  by (simp add: scenario_run returned_def)
     (simp add: scenario_def deleted_def permissionDenied_def deleteFailed_def ascii_simps)

text \<open>
  C9, amended. Take any list of nodes and any events that can occur after the call, in
  their order. At most five events per node can occur. With the API there, a request
  for every node has been handed to the gateway before the first event, whatever
  happens to the others. While the call has not returned, a further event can occur,
  and some further events make it return. When it has returned: \<open>successful\<close> holds
  the nodes for which the gateway fulfilled a request with \<open>success: true\<close>, in the order
  of these replies, each once; \<open>failed\<close> holds the other nodes of the input, each once
  and with the same fixed message (the literal "delete failed" of the source), whatever
  reason the gateway gave; together they are the input. In particular, for two nodes of
  which the gateway grants the first only, the result is the first in \<open>successful\<close> and
  the second, with the fixed message, in \<open>failed\<close>.
\<close>

theorem deleteMultipleNodes_partition:
  assumes "deleteMultipleNodes available ns c trace = Some b"
  shows "length trace \<le> 5 * length ns \<and>
         (available \<longrightarrow> take (length ns) (calls b) = map requestFor ns) \<and>
         (returned b = None \<longrightarrow>
            (\<exists>e. deleteMultipleNodes available ns c (trace @ [e]) \<noteq> None)) \<and>
         (\<exists>more b'. deleteMultipleNodes available ns c (trace @ more) = Some b' \<and>
                    returned b' \<noteq> None) \<and>
         (\<forall>r. returned b = Some r \<longrightarrow>
            successful r = map ((!) ns) (granted trace) \<and>
            distinct (granted trace) \<and>
            list_all (\<lambda>i. i < length ns) (granted trace) \<and>
            mset (failed r) =
              mset (map (\<lambda>i. (ns ! i, deleteFailed))
                     (filter (\<lambda>i. i \<notin> set (granted trace)) [0..<length ns])) \<and>
            mset (successful r) + mset (map fst (failed r)) = mset ns \<and>
            (\<forall>a z. ns = [a, z] \<and> granted trace = [0] \<longrightarrow>
               r = \<lparr>successful = [a], failed = [(z, deleteFailed)]\<rparr>))"
proof -
  from assms have run: "run trace (start available ns c) = Some b"
    by (simp add: deleteMultipleNodes_def)
  then have inv: "invariant ns trace b"
    by (rule invariant_run)
  from inv have bound: "length trace \<le> 5 * length ns"
    unfolding invariant_def by linarith
  have first: "take (length ns) (calls b) = map requestFor ns" if available
    using run that by (simp add: calls_first)
  have progress: "\<exists>e. deleteMultipleNodes available ns c (trace @ [e]) \<noteq> None"
    if "returned b = None"
  proof -
    from pending_step [OF that] obtain e b' where "step e b = Some b'"
      by blast
    with run have "deleteMultipleNodes available ns c (trace @ [e]) = Some b'"
      by (simp add: deleteMultipleNodes_def run_snoc)
    then show ?thesis
      by (metis option.distinct(1))
  qed
  have completes: "\<exists>more b'. deleteMultipleNodes available ns c (trace @ more) = Some b' \<and>
                              returned b' \<noteq> None"
    using run_completes [OF run] by (simp add: deleteMultipleNodes_def)
  have ret: "successful r = map ((!) ns) (granted trace) \<and>
            distinct (granted trace) \<and>
            list_all (\<lambda>i. i < length ns) (granted trace) \<and>
            mset (failed r) =
              mset (map (\<lambda>i. (ns ! i, deleteFailed))
                     (filter (\<lambda>i. i \<notin> set (granted trace)) [0..<length ns])) \<and>
            mset (successful r) + mset (map fst (failed r)) = mset ns \<and>
            (\<forall>a z. ns = [a, z] \<and> granted trace = [0] \<longrightarrow>
               r = \<lparr>successful = [a], failed = [(z, deleteFailed)]\<rparr>)"
    if r: "returned b = Some r" for r
  proof -
    from inv have "successful (result b) = map ((!) ns) (granted trace)"
      and "distinct (granted trace)"
      and "list_all (\<lambda>i. i < length ns) (granted trace)"
      unfolding invariant_def by blast+
    moreover note returned_result [OF r] returned_failed [OF inv r] returned_partition [OF inv r]
    moreover have "r = \<lparr>successful = [a], failed = [(z, deleteFailed)]\<rparr>"
      if "ns = [a, z]" "granted trace = [0]" for a z
      using inv r that by (simp add: returned_pair)
    ultimately show ?thesis
      by blast
  qed
  from bound first progress completes ret show ?thesis
    by blast
qed

theorem deleteMultipleNodes_partition_witness:
  "(\<exists>b. deleteMultipleNodes True [fileA, fileB] emptyService scenario = Some b \<and>
        returned b = Some \<lparr>successful = [fileA], failed = [(fileB, deleteFailed)]\<rparr> \<and>
        take 2 (calls b) = [requestFor fileA, requestFor fileB]) \<and>
   granted scenario = [0] \<and> length scenario = 6"
proof -
  let ?b = "\<lparr>tasks = [(fileA, Settled True), (fileB, Settled False)],
           calls = [requestFor fileA, requestFor fileB, requestFor fileB, requestFor fileB],
           result = \<lparr>successful = [fileA], failed = [(fileB, deleteFailed)]\<rparr>,
           service = clearCache (ascii ''/p'') (clearCache (ascii ''/p/a'') emptyService)\<rparr>"
  have g: "granted scenario = [0]" and l: "length scenario = 6"
    by (simp_all add: granted_def scenario_def deleted_def permissionDenied_def)
  have r: "returned ?b = Some (result ?b)"
    by (simp add: returned_def)
  from deleteMultipleNodes_partition [OF scenario_run] r g
  have "result ?b = \<lparr>successful = [fileA], failed = [(fileB, deleteFailed)]\<rparr>"
    and "take (length [fileA, fileB]) (calls ?b) = map requestFor [fileA, fileB]"
    by blast+
  with r g l scenario_run show ?thesis
    by simp
qed

end
